theory Spec2Isabelle
  imports Main "HOL-Library.Monad_Syntax"
begin

section \<open>Data model\<close>

text \<open>
  A Go \<open>string\<close> and a Go \<open>[]byte\<close> are both sequences of bytes, and the conversions
  \<open>string(b)\<close> and \<open>[]byte(s)\<close> copy the bytes unchanged. Both are modelled by
  \<open>string\<close> (a list of 8-bit characters). Go's \<open>int\<close> is taken to be 64 bits wide; the
  only place where the width is observable is the range check of \<open>strconv.Atoi\<close>.
\<close>

type_synonym bytes = string

record Student =
  Nama :: string
  Npm :: string

record GreetResponse =
  Student :: Student
  Greeter :: string

text \<open>
  \<open>HttpRequest\<close> and \<open>HttpResponse\<close> of the source both have a field \<open>Version\<close>; the
  request's is called \<open>ReqVersion\<close> here.
\<close>

record HttpRequest =
  Method :: string
  Uri :: string
  ReqVersion :: string
  Host :: string
  Accept :: string
  AcceptEncoding :: string

record HttpResponse =
  Version :: string
  StatusCode :: string
  ContentType :: string
  ContentEncoding :: string
  ContentLength :: int
  Data :: bytes

text \<open>The zero values \<open>HttpRequest{}\<close> and \<open>HttpResponse{}\<close> (a nil slice has length 0).\<close>

definition HttpRequest_zero :: HttpRequest where
  "HttpRequest_zero =
     \<lparr>Method = [], Uri = [], ReqVersion = [], Host = [], Accept = [], AcceptEncoding = []\<rparr>"

definition HttpResponse_zero :: HttpResponse where
  "HttpResponse_zero =
     \<lparr>Version = [], StatusCode = [], ContentType = [], ContentEncoding = [],
      ContentLength = 0, Data = []\<rparr>"

definition BUFFER_SIZE :: nat where
  "BUFFER_SIZE = 2048"

definition STUDENT_NAME :: string where
  "STUDENT_NAME = ''Muhammad Raihan Maulana''"

definition STUDENT_NPM :: string where
  "STUDENT_NPM = ''2306216636''"

definition CR :: char where
  "CR = CHR 0x0D"

definition LF :: char where
  "LF = CHR 0x0A"

definition CRLF :: string where
  "CRLF = [CR, LF]"

section \<open>The library functions the program calls\<close>

subsection \<open>What is taken as a parameter\<close>

text \<open>
  The result of \<open>url.Parse\<close> as far as the server reads it: the field \<open>Path\<close> and the
  value of the method \<open>Query()\<close>, a \<open>url.Values\<close> (a map from keys to lists of values).
\<close>

type_synonym Values = "string \<rightharpoonup> string list"

record URL =
  Path :: string
  Query :: Values

text \<open>\<open>Values.Get\<close>: the first value of the key, the empty string when there is none.\<close>

definition Values_Get :: "Values \<Rightarrow> string \<Rightarrow> string" where
  "Values_Get v key = (case v key of None \<Rightarrow> [] | Some [] \<Rightarrow> [] | Some (x # _) \<Rightarrow> x)"

text \<open>
  The parts of Go's standard library that are not modelled byte by byte are parameters
  of the model, so every theorem holds whatever they compute:
  \<^item> \<open>unicode_ToLower\<close>: \<open>strings.Map(unicode.ToLower, s)\<close>, which \<open>strings.ToLower\<close> calls
    only on a string with a byte \<open>\<ge> 0x80\<close>;
  \<^item> \<open>unicode_TrimFunc\<close> and \<open>unicode_TrimRightFunc\<close>: \<open>strings.TrimFunc(s, unicode.IsSpace)\<close>
    and \<open>strings.TrimRightFunc(s, unicode.IsSpace)\<close>, which \<open>strings.TrimSpace\<close> calls only
    when it meets a byte \<open>\<ge> 0x80\<close>;
  \<^item> \<open>url_Parse\<close>: \<open>url.Parse\<close> followed by \<open>Query()\<close>, \<open>None\<close> when it returns an error;
  \<^item> \<open>json_Marshal\<close> and \<open>xml_Marshal\<close> on a \<open>GreetResponse\<close>, \<open>None\<close> when they return
    an error;
  \<^item> \<open>compressGzip\<close> and \<open>compressDeflate\<close>: the two functions of the server that wrap
    \<open>compress/gzip\<close> and \<open>compress/flate\<close> (level 6).
\<close>

record stdlib =
  unicode_ToLower :: "string \<Rightarrow> string"
  unicode_TrimFunc :: "string \<Rightarrow> string"
  unicode_TrimRightFunc :: "string \<Rightarrow> string"
  url_Parse :: "string \<Rightarrow> URL option"
  json_Marshal :: "GreetResponse \<Rightarrow> bytes option"
  xml_Marshal :: "GreetResponse \<Rightarrow> bytes option"
  compressGzip :: "bytes \<Rightarrow> bytes"
  compressDeflate :: "bytes \<Rightarrow> bytes"

subsection \<open>Package strings\<close>

definition HasPrefix :: "string \<Rightarrow> string \<Rightarrow> bool" where
  "HasPrefix s pre = (take (length pre) s = pre)"

text \<open>
  \<open>strings.Index\<close>: the position of the first occurrence of \<open>sep\<close>; Go's \<open>-1\<close> is
  \<open>None\<close>.
\<close>

fun Index :: "string \<Rightarrow> string \<Rightarrow> nat option" where
  "Index [] sep = (if sep = [] then Some 0 else None)"
| "Index (c # cs) sep =
     (if HasPrefix (c # cs) sep then Some 0 else map_option Suc (Index cs sep))"

definition Contains :: "string \<Rightarrow> string \<Rightarrow> bool" where
  "Contains s sep = (Index s sep \<noteq> None)"

text \<open>
  \<open>strings.SplitN(s, sep, n)\<close> for \<open>n \<ge> 0\<close> and a separator that is not empty (the
  source splits on \<open>": "\<close> and \<open>":"\<close> with \<open>n = 2\<close>): at most \<open>n\<close> pieces, the last
  one the unsplit rest.
\<close>

fun SplitN :: "string \<Rightarrow> string \<Rightarrow> nat \<Rightarrow> string list" where
  "SplitN s sep 0 = []"
| "SplitN s sep (Suc 0) = [s]"
| "SplitN s sep (Suc (Suc n)) =
     (case Index s sep of
        None \<Rightarrow> [s]
      | Some m \<Rightarrow> take m s # SplitN (drop (m + length sep) s) sep (Suc n))"

lemma Index_Some_le: "Index s sep = Some i \<Longrightarrow> i + length sep \<le> length s"
proof (induction s arbitrary: i)
  case Nil
  then show ?case by (simp split: if_splits)
next
  case (Cons c cs)
  show ?case
  proof (cases "HasPrefix (c # cs) sep")
    case True
    then have "length (take (length sep) (c # cs)) = length sep"
      unfolding HasPrefix_def by simp
    then have "length sep \<le> length (c # cs)"
      by simp
    with True Cons.prems show ?thesis by simp
  next
    case False
    with Cons.prems obtain j where "Index cs sep = Some j" "i = Suc j"
      by auto
    with Cons.IH show ?thesis by fastforce
  qed
qed

text \<open>
  \<open>strings.Split(s, sep)\<close> for a separator that is not empty (the source splits on
  CRLF, on a space and on \<open>"/"\<close>): every piece between consecutive occurrences of
  \<open>sep\<close>, found from the left without overlap. The empty separator, which Go explodes
  into UTF-8 sequences, is never passed by the source; the model answers \<open>[s]\<close> there.
\<close>

function Split :: "string \<Rightarrow> string \<Rightarrow> string list" where
  "Split s sep =
     (case Index s sep of
        None \<Rightarrow> [s]
      | Some m \<Rightarrow> if sep = [] then [s] else take m s # Split (drop (m + length sep) s) sep)"
  by pat_completeness auto
termination
proof (relation "measure (\<lambda>(s, sep). length s)")
  show "wf (measure (\<lambda>(s, sep). length s))" by simp
next
  fix s sep :: string and m :: nat
  assume "Index s sep = Some m" "sep \<noteq> []"
  then have "m + length sep \<le> length s" "0 < length sep"
    by (auto dest: Index_Some_le)
  then have "length s - (m + length sep) < length s"
    by linarith
  then show "((drop (m + length sep) s, sep), (s, sep)) \<in> measure (\<lambda>(s, sep). length s)"
    by simp
qed

declare Split.simps [simp del]

fun Join :: "string list \<Rightarrow> string \<Rightarrow> string" where
  "Join [] sep = []"
| "Join [a] sep = a"
| "Join (a # b # rest) sep = a @ sep @ Join (b # rest) sep"

definition isASCII :: "char \<Rightarrow> bool" where
  "isASCII c = ((of_char c :: nat) < 128)"

definition lower_byte :: "char \<Rightarrow> char" where
  "lower_byte c =
     (let n = (of_char c :: nat) in if 65 \<le> n \<and> n \<le> 90 then char_of (n + 32) else c)"

text \<open>
  \<open>strings.ToLower\<close>: a string of ASCII bytes has \<open>A\<close>..\<open>Z\<close> replaced byte by byte (and
  is returned as it is when it has none); any other string goes through
  \<open>strings.Map(unicode.ToLower, s)\<close>.
\<close>

definition ToLower :: "stdlib \<Rightarrow> string \<Rightarrow> string" where
  "ToLower L s = (if list_all isASCII s then map lower_byte s else unicode_ToLower L s)"

text \<open>The table \<open>asciiSpace\<close>: tab, line feed, vertical tab, form feed, carriage return, space.\<close>

definition asciiSpace :: "char \<Rightarrow> bool" where
  "asciiSpace c = ((of_char c :: nat) \<in> {9, 10, 11, 12, 13, 32})"

text \<open>
  \<open>strings.TrimSpace\<close>: ASCII white space is skipped from the left; at a byte
  \<open>\<ge> 0x80\<close> the rest goes to \<open>TrimFunc\<close>. Then ASCII white space is skipped from the
  right; at a byte \<open>\<ge> 0x80\<close> what is left goes to \<open>TrimRightFunc\<close>.
\<close>

definition TrimSpace :: "stdlib \<Rightarrow> string \<Rightarrow> string" where
  "TrimSpace L s =
     (case dropWhile asciiSpace s of
        [] \<Rightarrow> []
      | c # cs \<Rightarrow>
          if \<not> isASCII c then unicode_TrimFunc L (c # cs)
          else (case dropWhile asciiSpace (rev (c # cs)) of
                  [] \<Rightarrow> []
                | d # ds \<Rightarrow>
                    if \<not> isASCII d then unicode_TrimRightFunc L (rev (d # ds))
                    else rev (d # ds)))"

subsection \<open>Package strconv and the verb \<open>%d\<close>\<close>

definition digit_char :: "nat \<Rightarrow> char" where
  "digit_char d = char_of (48 + d)"

function nat_digits :: "nat \<Rightarrow> string" where
  "nat_digits n = (if n < 10 then [digit_char n] else nat_digits (n div 10) @ [digit_char (n mod 10)])"
  by pat_completeness auto
termination
  by (relation "measure id") auto

declare nat_digits.simps [simp del]

text \<open>\<open>fmt.Sprintf("%d", i)\<close>: the decimal digits, after a minus sign when \<open>i < 0\<close>.\<close>

definition FormatInt :: "int \<Rightarrow> string" where
  "FormatInt i = (if i < 0 then CHR ''-'' # nat_digits (nat (- i)) else nat_digits (nat i))"

definition isDigit :: "char \<Rightarrow> bool" where
  "isDigit c = (48 \<le> (of_char c :: nat) \<and> (of_char c :: nat) \<le> 57)"

fun digits_val :: "int \<Rightarrow> string \<Rightarrow> int" where
  "digits_val acc [] = acc"
| "digits_val acc (c # cs) = digits_val (acc * 10 + ((of_char c :: int) - 48)) cs"

text \<open>
  \<open>strconv.Atoi\<close>: an optional sign, then one or more decimal digits and nothing else;
  a value outside the 64-bit range is an error as well. \<open>None\<close> is \<open>err != nil\<close>.
\<close>

definition Atoi :: "string \<Rightarrow> int option" where
  "Atoi s =
     (let neg = (s \<noteq> [] \<and> hd s = CHR ''-'');
          ds = (if s \<noteq> [] \<and> (hd s = CHR ''-'' \<or> hd s = CHR ''+'') then tl s else s)
      in if ds = [] \<or> \<not> list_all isDigit ds then None
         else (let v = (if neg then - digits_val 0 ds else digits_val 0 ds)
               in if v < - (2 ^ 63) \<or> 2 ^ 63 \<le> v then None else Some v))"

text \<open>
  Indexing \<open>xs[i]\<close>: Go panics when the index is out of range. \<open>None\<close> is the panic, and
  every function below that indexes returns an \<open>option\<close>.
\<close>

definition index :: "'a list \<Rightarrow> nat \<Rightarrow> 'a option" where
  "index xs i = (if i < length xs then Some (xs ! i) else None)"

section \<open>The server\<close>

subsection \<open>Negotiation\<close>

definition determineContentType :: "stdlib \<Rightarrow> string \<Rightarrow> string" where
  "determineContentType L accept0 =
     (let accept = ToLower L accept0 in
      if Contains accept '','' \<or> Contains accept ''q='' then ''application/json''
      else if Contains accept ''application/xml'' then ''application/xml''
      else if Contains accept ''application/json'' then ''application/json''
      else ''application/json'')"

definition determineEncoding :: "stdlib \<Rightarrow> string \<Rightarrow> string" where
  "determineEncoding L acceptEncoding0 =
     (let acceptEncoding = ToLower L acceptEncoding0 in
      if Contains acceptEncoding '','' \<or> Contains acceptEncoding ''q='' then ''gzip''
      else if Contains acceptEncoding ''deflate'' then ''deflate''
      else if Contains acceptEncoding ''gzip'' then ''gzip''
      else if acceptEncoding = ''none'' then ''none''
      else ''gzip'')"

subsection \<open>Decoding a request\<close>

text \<open>
  The body of the header loop of \<open>RequestDecoder\<close> for one line that is not empty: the
  line is cut at the first \<open>": "\<close>, and the \<open>switch\<close> on the lowercased name has no
  default.
\<close>

definition request_header :: "stdlib \<Rightarrow> string \<Rightarrow> HttpRequest \<Rightarrow> HttpRequest option" where
  "request_header L line req =
     (let headerParts = SplitN line '': '' 2 in
      if length headerParts = 2 then do {
        name \<leftarrow> index headerParts 0;
        headerValue \<leftarrow> index headerParts 1;
        let headerName = ToLower L name;
        Some (if headerName = ''host'' then req\<lparr>Host := headerValue\<rparr>
              else if headerName = ''accept'' then req\<lparr>Accept := headerValue\<rparr>
              else if headerName = ''accept-encoding'' then req\<lparr>AcceptEncoding := headerValue\<rparr>
              else req)
      } else Some req)"

text \<open>The loop \<open>for i := 1; i < len(lines); i++\<close>, over the lines from the second on.\<close>

fun request_headers :: "stdlib \<Rightarrow> string list \<Rightarrow> HttpRequest \<Rightarrow> HttpRequest option" where
  "request_headers L [] req = Some req"
| "request_headers L (line # rest) req =
     (if line = [] then Some req
      else do { req' \<leftarrow> request_header L line req; request_headers L rest req' })"

definition RequestDecoder :: "stdlib \<Rightarrow> bytes \<Rightarrow> HttpRequest option" where
  "RequestDecoder L bytestream = do {
     let lines = Split bytestream CRLF;
     req \<leftarrow> (if length lines > 0 then do {
                l0 \<leftarrow> index lines 0;
                let requestLineParts = Split l0 '' '';
                if length requestLineParts \<ge> 3 then do {
                  m \<leftarrow> index requestLineParts 0;
                  u \<leftarrow> index requestLineParts 1;
                  v \<leftarrow> index requestLineParts 2;
                  Some (HttpRequest_zero\<lparr>Method := m, Uri := u, ReqVersion := v\<rparr>)
                } else Some HttpRequest_zero
              } else Some HttpRequest_zero);
     req \<leftarrow> request_headers L (drop 1 lines) req;
     Some (if AcceptEncoding req = [] then req\<lparr>AcceptEncoding := ''none''\<rparr> else req)
   }"

subsection \<open>Encoding a response\<close>

definition ResponseEncoder :: "HttpResponse \<Rightarrow> bytes" where
  "ResponseEncoder res =
     (Version res @ '' '' @ StatusCode res @ '' OK'' @ CRLF)
     @ (if ContentType res \<noteq> [] then ''Content-Type: '' @ ContentType res @ CRLF else [])
     @ (if ContentEncoding res \<noteq> [] \<and> ContentEncoding res \<noteq> ''none''
        then ''Content-Encoding: '' @ ContentEncoding res @ CRLF else [])
     @ (''Content-Length: '' @ FormatInt (ContentLength res) @ CRLF)
     @ CRLF
     @ Data res"

subsection \<open>Routing\<close>

definition handle404 :: HttpResponse where
  "handle404 = HttpResponse_zero\<lparr>Version := ''HTTP/1.1'', StatusCode := ''404''\<rparr>"

definition handleRoot :: "HttpRequest \<Rightarrow> HttpResponse" where
  "handleRoot req =
     (let htmlContent = ''<html><body><h1>Halo, dunia! Aku '' @ STUDENT_NAME
            @ '' sedang mengerjakan A03</h1></body></html>'';
          response = HttpResponse_zero\<lparr>Version := ''HTTP/1.1'', StatusCode := ''200'',
            ContentType := ''text/html'', ContentEncoding := ''none'', Data := htmlContent\<rparr>
      in response\<lparr>ContentLength := int (length (Data response))\<rparr>)"

definition handleGreet :: "stdlib \<Rightarrow> HttpRequest \<Rightarrow> string \<Rightarrow> Values \<Rightarrow> HttpResponse option" where
  "handleGreet L req path query =
     (let parts = Split path ''/'' in
      if length parts < 3 then Some handle404
      else do {
        npm \<leftarrow> index parts 2;
        if npm \<noteq> STUDENT_NPM then Some handle404
        else do {
          let nameParam = Values_Get query ''name'';
          let greeterName = (if nameParam \<noteq> [] then nameParam else STUDENT_NAME);
          let student = \<lparr>Nama = STUDENT_NAME, Npm = STUDENT_NPM\<rparr>;
          let greetResponse = \<lparr>Student = student, Greeter = greeterName\<rparr>;
          let contentType0 = determineContentType L (Accept req);
          let contentType = (if contentType0 = ''application/xml'' then contentType0
                             else ''application/json'');
          let marshalled = (if contentType0 = ''application/xml'' then xml_Marshal L greetResponse
                            else json_Marshal L greetResponse);
          case marshalled of
            None \<Rightarrow> Some (HttpResponse_zero\<lparr>Version := ''HTTP/1.1'', StatusCode := ''500''\<rparr>)
          | Some responseData0 \<Rightarrow> do {
              let encoding0 = determineEncoding L (AcceptEncoding req);
              let responseData = (if encoding0 = ''gzip'' then compressGzip L responseData0
                                  else if encoding0 = ''deflate'' then compressDeflate L responseData0
                                  else responseData0);
              let encoding = (if encoding0 = ''gzip'' \<or> encoding0 = ''deflate'' then encoding0
                              else ''none'');
              let response = HttpResponse_zero\<lparr>Version := ''HTTP/1.1'', StatusCode := ''200'',
                    ContentType := contentType, ContentEncoding := encoding, Data := responseData\<rparr>;
              Some (response\<lparr>ContentLength := int (length (Data response))\<rparr>)
            }
        }
      })"

definition HandleRequest :: "stdlib \<Rightarrow> HttpRequest \<Rightarrow> HttpResponse option" where
  "HandleRequest L req =
     (case url_Parse L (Uri req) of
        None \<Rightarrow> Some (HttpResponse_zero\<lparr>Version := ''HTTP/1.1'', StatusCode := ''400''\<rparr>)
      | Some parsedURL \<Rightarrow>
          (let path = Path parsedURL; query = Query parsedURL in
           if path = ''/'' then Some (handleRoot req)
           else if HasPrefix path ''/greet/'' then handleGreet L req path query
           else Some handle404))"

section \<open>The client\<close>

subsection \<open>Encoding a request\<close>

definition RequestEncoder :: "HttpRequest \<Rightarrow> bytes" where
  "RequestEncoder req =
     (Method req @ '' '' @ Uri req @ '' '' @ ReqVersion req @ CRLF)
     @ (''Host: '' @ Host req @ CRLF)
     @ (''Accept: '' @ Accept req @ CRLF)
     @ (if AcceptEncoding req \<noteq> ''none''
        then ''Accept-Encoding: '' @ AcceptEncoding req @ CRLF else [])
     @ CRLF"

subsection \<open>Decoding a response\<close>

definition response_header :: "stdlib \<Rightarrow> string \<Rightarrow> HttpResponse \<Rightarrow> HttpResponse option" where
  "response_header L line response =
     (let headerParts = SplitN line '': '' 2 in
      if length headerParts = 2 then do {
        name \<leftarrow> index headerParts 0;
        headerValue \<leftarrow> index headerParts 1;
        let headerName = ToLower L name;
        Some (if headerName = ''content-type'' then response\<lparr>ContentType := headerValue\<rparr>
              else if headerName = ''content-encoding''
                then response\<lparr>ContentEncoding := headerValue\<rparr>
              else if headerName = ''content-length''
                then (case Atoi headerValue of
                        Some n \<Rightarrow> response\<lparr>ContentLength := n\<rparr>
                      | None \<Rightarrow> response)
              else response)
      } else Some response)"

text \<open>
  The loop \<open>for i, line := range lines\<close> of \<open>ResponseDecoder\<close>, from index \<open>i\<close> on. It
  returns the response and \<open>headerEndIndex\<close>: the index of the first empty line, and
  the initial \<open>0\<close> when the loop ends without meeting one.
\<close>

fun response_headers ::
  "stdlib \<Rightarrow> string list \<Rightarrow> nat \<Rightarrow> HttpResponse \<Rightarrow> (HttpResponse \<times> nat) option" where
  "response_headers L [] i response = Some (response, 0)"
| "response_headers L (line # rest) i response =
     (if line = [] then Some (response, i)
      else if i = 0 then response_headers L rest (Suc i) response
      else do {
        response' \<leftarrow> response_header L line response;
        response_headers L rest (Suc i) response'
      })"

definition ResponseDecoder :: "stdlib \<Rightarrow> bytes \<Rightarrow> HttpResponse option" where
  "ResponseDecoder L bytestream = do {
     let lines = Split bytestream CRLF;
     response \<leftarrow> (if length lines > 0 then do {
                     l0 \<leftarrow> index lines 0;
                     let statusParts = Split l0 '' '';
                     if length statusParts \<ge> 3 then do {
                       v \<leftarrow> index statusParts 0;
                       c \<leftarrow> index statusParts 1;
                       Some (HttpResponse_zero\<lparr>Version := v, StatusCode := c\<rparr>)
                     } else Some HttpResponse_zero
                   } else Some HttpResponse_zero);
     (response, headerEndIndex) \<leftarrow> response_headers L lines 0 response;
     Some (if int headerEndIndex < int (length lines) - 1
           then response\<lparr>Data := Join (drop (headerEndIndex + 1) lines) CRLF\<rparr>
           else response)
   }"

subsection \<open>Reading a response from the connection\<close>

text \<open>
  The search for the declared length in \<open>Fetch\<close>: the first line whose lowercased text
  starts with \<open>content-length:\<close> decides (the loop breaks there), and the length stays
  \<open>0\<close> when the value does not parse.
\<close>

fun declared_length :: "stdlib \<Rightarrow> string list \<Rightarrow> int option" where
  "declared_length L [] = Some 0"
| "declared_length L (line # rest) =
     (if HasPrefix (ToLower L line) ''content-length:'' then
        (let parts = SplitN line '':'' 2 in
         if length parts = 2 then do {
           v \<leftarrow> index parts 1;
           Some (case Atoi (TrimSpace L v) of Some n \<Rightarrow> n | None \<Rightarrow> 0)
         } else Some 0)
      else declared_length L rest)"

text \<open>
  What \<open>Fetch\<close> computes once the buffer contains the terminator: whether the loop
  breaks. The slice \<open>responseStr[:headerEndIndex]\<close> panics on a negative bound.
\<close>

definition message_complete :: "stdlib \<Rightarrow> bytes \<Rightarrow> bool option" where
  "message_complete L responseData =
     (case Index responseData (CRLF @ CRLF) of
        None \<Rightarrow> None
      | Some headerEndIndex \<Rightarrow> do {
          let headers = take headerEndIndex responseData;
          contentLength \<leftarrow> declared_length L (Split headers CRLF);
          let bodyStart = headerEndIndex + 4;
          let currentBodyLength = int (length responseData) - int bodyStart;
          Some (contentLength = 0 \<or> currentBodyLength \<ge> contentLength)
        })"

text \<open>
  The read loop of \<open>Fetch\<close>. The connection is the list of chunks that the successive
  calls of \<open>Read\<close> deliver, each of at most \<open>BUFFER_SIZE\<close> bytes; the end of the list is
  a \<open>Read\<close> that returns an error (the peer closed the connection), where the loop
  breaks. The result is the accumulated \<open>responseData\<close> and the chunks left unread.
\<close>

fun read_loop :: "stdlib \<Rightarrow> bytes list \<Rightarrow> bytes \<Rightarrow> (bytes \<times> bytes list) option" where
  "read_loop L [] acc = Some (acc, [])"
| "read_loop L (chunk # rest) acc =
     (let responseData = acc @ chunk in do {
        finished \<leftarrow> (if Contains responseData (CRLF @ CRLF) then message_complete L responseData
                 else Some False);
        if finished then Some (responseData, rest)
        else if length chunk < BUFFER_SIZE then Some (responseData, rest)
        else read_loop L rest responseData
      })"

text \<open>
  \<open>Fetch\<close>: \<open>write_ok\<close> tells whether writing the request succeeded; when it did not,
  the zero response is returned without reading.
\<close>

definition Fetch :: "stdlib \<Rightarrow> HttpRequest \<Rightarrow> bool \<Rightarrow> bytes list \<Rightarrow> HttpResponse option" where
  "Fetch L req write_ok chunks =
     (if \<not> write_ok then Some HttpResponse_zero
      else do {
        (responseData, unread) \<leftarrow> read_loop L chunks [];
        ResponseDecoder L responseData
      })"

text \<open>
  Two predicates to state what the loop does. \<open>response_complete\<close>: the buffer contains
  the terminator and the test on the declared length succeeds, so the loop breaks at its
  first \<open>break\<close>. \<open>stops_reading\<close>: with \<open>chunk\<close> appended to \<open>acc\<close>, the loop breaks at
  one of its two \<open>break\<close>s.
\<close>

definition response_complete :: "stdlib \<Rightarrow> bytes \<Rightarrow> bool" where
  "response_complete L responseData =
     (Contains responseData (CRLF @ CRLF) \<and> message_complete L responseData = Some True)"

definition stops_reading :: "stdlib \<Rightarrow> bytes \<Rightarrow> bytes \<Rightarrow> bool" where
  "stops_reading L acc chunk = (response_complete L (acc @ chunk) \<or> length chunk < BUFFER_SIZE)"

text \<open>
  The completion rule in the words of the specification, to compare with the test of
  the loop. The declared length is read from the first header line that starts with
  \<open>content-length:\<close> whatever its case: the text after the first colon of that line,
  trimmed, as a decimal number; no such line, or a text that does not parse, counts
  as 0.
\<close>

definition after_colon :: "string \<Rightarrow> string" where
  "after_colon l = drop (Suc (length (takeWhile (\<lambda>c. c \<noteq> CHR '':'') l))) l"

definition spec_declared_length :: "stdlib \<Rightarrow> string list \<Rightarrow> int" where
  "spec_declared_length L header_lines =
     (case find (\<lambda>l. HasPrefix (ToLower L l) ''content-length:'') header_lines of
        None \<Rightarrow> 0
      | Some l \<Rightarrow> (case Atoi (TrimSpace L (after_colon l)) of Some n \<Rightarrow> n | None \<Rightarrow> 0))"

text \<open>
  The header terminator is found at the first position where the four bytes CR LF CR LF
  stand. The response is complete when the terminator has been received and the number
  of bytes received after it reaches the declared length of the header lines before it.
\<close>

definition first_terminator :: "bytes \<Rightarrow> nat option" where
  "first_terminator received =
     find (\<lambda>i. take 4 (drop i received) = CRLF @ CRLF) [0..<length received]"

definition spec_complete :: "stdlib \<Rightarrow> bytes \<Rightarrow> bool" where
  "spec_complete L received =
     (case first_terminator received of
        None \<Rightarrow> False
      | Some i \<Rightarrow> spec_declared_length L (Split (take i received) CRLF)
                  \<le> int (length (drop (i + 4) received)))"

section \<open>A library instance for evaluation\<close>

text \<open>
  The theorems below hold for every \<open>stdlib\<close>. To evaluate the functions on concrete
  inputs, the parameters are instantiated by what Go computes on those inputs:
  \<^item> \<open>sample_url_Parse\<close> follows \<open>url.Parse\<close> on a target that starts with \<open>/\<close> and has
    no escape, no fragment and at most one \<open>key=value\<close> pair after a \<open>?\<close> (the path is
    what stands before the \<open>?\<close>), and on a target with an ASCII control byte, which
    \<open>url.Parse\<close> rejects;
  \<^item> \<open>sample_json_Marshal\<close> and \<open>sample_xml_Marshal\<close> follow \<open>json.Marshal\<close> and
    \<open>xml.Marshal\<close> on a \<open>GreetResponse\<close> whose strings need no escaping;
  \<^item> the Unicode functions and the compressors are not reached by any evaluation in
    this theory; the instance lets them return their argument.
\<close>

definition sample_Query :: "string \<Rightarrow> Values" where
  "sample_Query raw =
     (if raw = [] then Map.empty
      else [takeWhile (\<lambda>c. c \<noteq> CHR ''='') raw \<mapsto>
              [drop (Suc (length (takeWhile (\<lambda>c. c \<noteq> CHR ''='') raw))) raw]])"

definition sample_url_Parse :: "string \<Rightarrow> URL option" where
  "sample_url_Parse s =
     (if list_ex (\<lambda>c. (of_char c :: nat) < 32 \<or> (of_char c :: nat) = 127) s then None
      else (let p = takeWhile (\<lambda>c. c \<noteq> CHR ''?'') s
            in Some \<lparr>Path = p, Query = sample_Query (drop (Suc (length p)) s)\<rparr>))"

definition sample_json_Marshal :: "GreetResponse \<Rightarrow> bytes option" where
  "sample_json_Marshal g =
     Some (''{'' @ [CHR 0x22] @ ''Student'' @ [CHR 0x22] @ '':{'' @ [CHR 0x22] @ ''Nama''
       @ [CHR 0x22] @ '':'' @ [CHR 0x22] @ Nama (Student g) @ [CHR 0x22] @ '','' @ [CHR 0x22]
       @ ''Npm'' @ [CHR 0x22] @ '':'' @ [CHR 0x22] @ Npm (Student g) @ [CHR 0x22] @ ''},''
       @ [CHR 0x22] @ ''Greeter'' @ [CHR 0x22] @ '':'' @ [CHR 0x22] @ Greeter g @ [CHR 0x22]
       @ ''}'')"

definition sample_xml_Marshal :: "GreetResponse \<Rightarrow> bytes option" where
  "sample_xml_Marshal g =
     Some (''<GreetResponse><Student><Nama>'' @ Nama (Student g) @ ''</Nama><Npm>''
       @ Npm (Student g) @ ''</Npm></Student><Greeter>'' @ Greeter g
       @ ''</Greeter></GreetResponse>'')"

definition sample_stdlib :: stdlib where
  "sample_stdlib =
     \<lparr>unicode_ToLower = (\<lambda>s. s), unicode_TrimFunc = (\<lambda>s. s),
      unicode_TrimRightFunc = (\<lambda>s. s), url_Parse = sample_url_Parse,
      json_Marshal = sample_json_Marshal, xml_Marshal = sample_xml_Marshal,
      compressGzip = (\<lambda>b. b), compressDeflate = (\<lambda>b. b)\<rparr>"

section \<open>Facts about the library functions\<close>

subsection \<open>Searching\<close>

lemma HasPrefix_append [simp]: "HasPrefix (pre @ v) pre"
  by (simp add: HasPrefix_def)

lemma Index_Some_split:
  "Index s sep = Some i \<Longrightarrow> s = take i s @ sep @ drop (i + length sep) s"
proof (induction s arbitrary: i)
  case Nil
  then show ?case by (simp split: if_splits)
next
  case (Cons c cs)
  show ?case
  proof (cases "HasPrefix (c # cs) sep")
    case True
    with Cons.prems have "i = 0" by simp
    moreover from True have "c # cs = sep @ drop (length sep) (c # cs)"
      unfolding HasPrefix_def by (metis append_take_drop_id)
    ultimately show ?thesis by simp
  next
    case False
    with Cons.prems obtain j where j: "Index cs sep = Some j" "i = Suc j"
      by auto
    from Cons.IH [OF j(1)] j(2) show ?thesis by simp
  qed
qed

lemma Index_occurrence: "Index (u @ sep @ v) sep \<noteq> None"
proof (induction u)
  case Nil
  show ?case
  proof (cases "sep @ v")
    case Nil
    then show ?thesis by simp
  next
    case (Cons c cs)
    have "HasPrefix (sep @ v) sep" by simp
    with Cons show ?thesis by simp
  qed
next
  case (Cons x u)
  then show ?case by simp
qed

text \<open>\<open>Contains\<close> decides whether \<open>sep\<close> occurs in \<open>s\<close> as a contiguous block.\<close>

lemma Contains_iff: "Contains s sep \<longleftrightarrow> (\<exists>u v. s = u @ sep @ v)"
proof
  assume "Contains s sep"
  then obtain i where "Index s sep = Some i"
    unfolding Contains_def by auto
  from Index_Some_split [OF this] show "\<exists>u v. s = u @ sep @ v" by blast
next
  assume "\<exists>u v. s = u @ sep @ v"
  then show "Contains s sep"
    unfolding Contains_def using Index_occurrence by auto
qed

lemma Index_hd_notin: "c \<notin> set s \<Longrightarrow> Index s (c # cs) = None"
  by (induction s) (auto simp: HasPrefix_def)

lemma Index_at_hd: "c \<notin> set a \<Longrightarrow> Index (a @ (c # cs) @ b) (c # cs) = Some (length a)"
  by (induction a) (auto simp: HasPrefix_def)

lemma Index_at_CRLF: "\<not> Contains a CRLF \<Longrightarrow> Index (a @ CRLF @ b) CRLF = Some (length a)"
proof (induction a)
  case Nil
  show ?case using HasPrefix_append [of CRLF b] by (cases "CRLF @ b") (auto simp: CRLF_def)
next
  case (Cons x xs)
  from Cons.prems have np: "\<not> HasPrefix (x # xs) CRLF" and nc: "\<not> Contains xs CRLF"
    unfolding Contains_def by (auto split: if_splits)
  have "\<not> HasPrefix (x # xs @ CRLF @ b) CRLF"
    using np by (cases xs) (auto simp: HasPrefix_def CRLF_def CR_def LF_def)
  with Cons.IH [OF nc] show ?case by simp
qed

subsection \<open>Splitting and joining\<close>

lemma Split_None: "Index s sep = None \<Longrightarrow> Split s sep = [s]"
  by (simp add: Split.simps)

lemma Split_Some:
  "Index s sep = Some m \<Longrightarrow> sep \<noteq> [] \<Longrightarrow>
   Split s sep = take m s # Split (drop (m + length sep) s) sep"
  by (subst Split.simps) simp

lemma Split_at:
  "Index (a @ sep @ b) sep = Some (length a) \<Longrightarrow> sep \<noteq> [] \<Longrightarrow>
   Split (a @ sep @ b) sep = a # Split b sep"
  by (simp add: Split_Some)

lemma Split_not_Nil [simp]: "Split s sep \<noteq> []"
  by (subst Split.simps) (simp split: option.splits)

lemma Split_line: "\<not> Contains a CRLF \<Longrightarrow> Split (a @ CRLF @ b) CRLF = a # Split b CRLF"
  by (rule Split_at [OF Index_at_CRLF]) (simp_all add: CRLF_def)

lemma Split_token: "c \<notin> set a \<Longrightarrow> Split (a @ c # b) [c] = a # Split b [c]"
  using Split_at [OF Index_at_hd, of c a "[]" b] by simp

lemma Split_last: "c \<notin> set a \<Longrightarrow> Split a [c] = [a]"
  by (simp add: Split_None Index_hd_notin)

lemma Join_Cons: "xs \<noteq> [] \<Longrightarrow> Join (a # xs) sep = a @ sep @ Join xs sep"
  by (cases xs) simp_all

text \<open>Joining the pieces of a split with the same separator gives the string back.\<close>

lemma Join_Split: "Join (Split s sep) sep = s"
proof (induction s sep rule: Split.induct)
  case (1 s sep)
  show ?case
  proof (cases "Index s sep")
    case None
    then show ?thesis by (simp add: Split_None)
  next
    case (Some m)
    show ?thesis
    proof (cases "sep = []")
      case True
      with Some show ?thesis by (subst Split.simps) simp
    next
      case False
      from "1.IH" [OF Some False] Some False Index_Some_split [OF Some]
      show ?thesis by (simp add: Split_Some Join_Cons)
    qed
  qed
qed

subsection \<open>Decimal numbers\<close>

lemma of_char_digit_char: "d < 10 \<Longrightarrow> (of_char (digit_char d) :: nat) = 48 + d"
  by (simp add: digit_char_def)

lemma of_char_digit_char_int: "d < 10 \<Longrightarrow> (of_char (digit_char d) :: int) = 48 + int d"
proof -
  assume "d < 10"
  then have "int (of_char (digit_char d)) = int (48 + d)"
    by (simp only: of_char_digit_char)
  then show ?thesis by (simp add: of_nat_of_char)
qed

lemma isDigit_digit_char: "d < 10 \<Longrightarrow> isDigit (digit_char d)"
  by (simp add: isDigit_def of_char_digit_char)

lemma nat_digits_not_Nil: "nat_digits n \<noteq> []"
  by (subst nat_digits.simps) simp

lemma nat_digits_all_digits: "list_all isDigit (nat_digits n)"
proof (induction n rule: nat_digits.induct)
  case (1 n)
  show ?case
  proof (cases "n < 10")
    case True
    then show ?thesis by (subst nat_digits.simps) (simp add: isDigit_digit_char)
  next
    case False
    with "1.IH" show ?thesis by (subst nat_digits.simps) (simp add: isDigit_digit_char)
  qed
qed

lemma digits_val_append: "digits_val acc (xs @ ys) = digits_val (digits_val acc xs) ys"
  by (induction xs arbitrary: acc) simp_all

lemma digits_val_nat_digits: "digits_val 0 (nat_digits n) = int n"
proof (induction n rule: nat_digits.induct)
  case (1 n)
  show ?case
  proof (cases "n < 10")
    case True
    then show ?thesis by (subst nat_digits.simps) (simp add: of_char_digit_char_int)
  next
    case False
    with "1.IH" have "digits_val 0 (nat_digits (n div 10)) = int (n div 10)" by simp
    with False show ?thesis
      by (subst nat_digits.simps)
        (simp add: digits_val_append of_char_digit_char_int zdiv_int zmod_int)
  qed
qed

lemma isDigit_not_sign: "isDigit c \<Longrightarrow> c \<noteq> CHR ''-'' \<and> c \<noteq> CHR ''+''"
  by (auto simp: isDigit_def)

lemma hd_nat_digits_not_sign: "hd (nat_digits n) \<noteq> CHR ''-'' \<and> hd (nat_digits n) \<noteq> CHR ''+''"
proof -
  have "isDigit (hd (nat_digits n))"
    using nat_digits_all_digits [of n] nat_digits_not_Nil [of n]
    by (cases "nat_digits n") simp_all
  then show ?thesis by (rule isDigit_not_sign)
qed

text \<open>Parsing what \<open>%d\<close> printed gives the number back, within the range of \<open>int\<close>.\<close>

lemma Atoi_FormatInt: "0 \<le> i \<Longrightarrow> i < 2 ^ 63 \<Longrightarrow> Atoi (FormatInt i) = Some i"
  using hd_nat_digits_not_sign [of "nat i"] nat_digits_not_Nil [of "nat i"]
    nat_digits_all_digits [of "nat i"]
  by (simp add: Atoi_def FormatInt_def digits_val_nat_digits)

lemma isDigit_not_CR: "isDigit c \<Longrightarrow> c \<noteq> CR"
  by (auto simp: isDigit_def CR_def)

lemma FormatInt_no_CR: "CR \<notin> set (FormatInt i)"
  using nat_digits_all_digits [of "nat i"] nat_digits_all_digits [of "nat (- i)"]
  by (auto simp: FormatInt_def list_all_iff CR_def dest!: bspec isDigit_not_CR)

subsection \<open>Lines without a line break\<close>

lemma Contains_Cons: "Contains (x # xs) sep \<longleftrightarrow> HasPrefix (x # xs) sep \<or> Contains xs sep"
  by (simp add: Contains_def)

lemma no_CRLF_Nil [simp]: "\<not> Contains [] CRLF"
  by (simp add: Contains_def CRLF_def)

lemma no_CRLF_Cons: "c \<noteq> CR \<Longrightarrow> \<not> Contains b CRLF \<Longrightarrow> \<not> Contains (c # b) CRLF"
  by (simp add: Contains_Cons HasPrefix_def CRLF_def)

lemma no_CRLF_append:
  "\<not> Contains a CRLF \<Longrightarrow> \<not> Contains (c # b) CRLF \<Longrightarrow> c \<noteq> LF \<Longrightarrow>
   \<not> Contains (a @ c # b) CRLF"
proof (induction a)
  case Nil
  then show ?case by simp
next
  case (Cons x xs)
  from Cons.prems(1) have np: "\<not> HasPrefix (x # xs) CRLF" and nc: "\<not> Contains xs CRLF"
    by (simp_all add: Contains_Cons)
  have "\<not> HasPrefix (x # xs @ c # b) CRLF"
    using np Cons.prems(3) by (cases xs) (auto simp: HasPrefix_def CRLF_def)
  moreover have "\<not> Contains (xs @ c # b) CRLF"
    using Cons.IH [OF nc Cons.prems(2,3)] .
  ultimately show ?case by (simp add: Contains_Cons)
qed

lemma no_CRLF_no_CR: "CR \<notin> set a \<Longrightarrow> \<not> Contains a CRLF"
  by (simp add: Contains_def CRLF_def Index_hd_notin)

lemma no_CRLF_prepend: "CR \<notin> set a \<Longrightarrow> \<not> Contains b CRLF \<Longrightarrow> \<not> Contains (a @ b) CRLF"
  by (induction a) (auto simp: Contains_Cons HasPrefix_def CRLF_def)

section \<open>Negotiation\<close>

text \<open>
  C3. Content-type negotiation. With the \<open>Accept\<close> value folded to lower case by
  \<open>strings.ToLower\<close>: the answer is JSON when the folded value contains a comma or
  \<open>q=\<close>; otherwise XML when it contains \<open>application/xml\<close>; JSON in every other case.
\<close>

theorem determineContentType_rule:
  "determineContentType L accept =
     (if (\<exists>u v. ToLower L accept = u @ '','' @ v) \<or> (\<exists>u v. ToLower L accept = u @ ''q='' @ v)
      then ''application/json''
      else if (\<exists>u v. ToLower L accept = u @ ''application/xml'' @ v) then ''application/xml''
      else ''application/json'')"
  unfolding determineContentType_def Let_def Contains_iff by simp

theorem determineContentType_rule_witness:
  "determineContentType sample_stdlib ''application/json, application/xml'' = ''application/json''
   \<and> determineContentType sample_stdlib ''Application/XML'' = ''application/xml''
   \<and> determineContentType sample_stdlib ''text/plain'' = ''application/json''"
  using determineContentType_rule [of sample_stdlib "''application/json, application/xml''"]
    determineContentType_rule [of sample_stdlib "''Application/XML''"]
    determineContentType_rule [of sample_stdlib "''text/plain''"]
  unfolding Contains_iff [symmetric]
  by (simp add: Contains_def HasPrefix_def ToLower_def isASCII_def lower_byte_def char_of_def
      bit_Suc_0_iff)

text \<open>
  C4. Content-encoding negotiation. With the \<open>Accept-Encoding\<close> value folded to lower
  case: gzip when the folded value contains a comma or \<open>q=\<close>; otherwise deflate when it
  contains \<open>deflate\<close>; otherwise gzip when it contains \<open>gzip\<close>; otherwise \<open>none\<close>
  exactly when the folded value is \<open>none\<close>; gzip for every other value.
\<close>

theorem determineEncoding_rule:
  "determineEncoding L acceptEncoding =
     (if (\<exists>u v. ToLower L acceptEncoding = u @ '','' @ v)
         \<or> (\<exists>u v. ToLower L acceptEncoding = u @ ''q='' @ v) then ''gzip''
      else if (\<exists>u v. ToLower L acceptEncoding = u @ ''deflate'' @ v) then ''deflate''
      else if (\<exists>u v. ToLower L acceptEncoding = u @ ''gzip'' @ v) then ''gzip''
      else if ToLower L acceptEncoding = ''none'' then ''none''
      else ''gzip'')"
  unfolding determineEncoding_def Let_def Contains_iff by simp

theorem determineEncoding_rule_witness:
  "determineEncoding sample_stdlib ''gzip;q=0.5, deflate'' = ''gzip''
   \<and> determineEncoding sample_stdlib ''deflate'' = ''deflate''
   \<and> determineEncoding sample_stdlib ''None'' = ''none''
   \<and> determineEncoding sample_stdlib ''br'' = ''gzip''"
  using determineEncoding_rule [of sample_stdlib "''gzip;q=0.5, deflate''"]
    determineEncoding_rule [of sample_stdlib "''deflate''"]
    determineEncoding_rule [of sample_stdlib "''None''"]
    determineEncoding_rule [of sample_stdlib "''br''"]
  unfolding Contains_iff [symmetric]
  by (simp add: Contains_def HasPrefix_def ToLower_def isASCII_def lower_byte_def char_of_def
      bit_Suc_0_iff)

section \<open>Decoding a request never fails\<close>

lemma index_Some [simp]: "i < length xs \<Longrightarrow> index xs i = Some (xs ! i)"
  by (simp add: index_def)

lemma request_header_frame:
  "\<exists>req'. request_header L line req = Some req' \<and> Method req' = Method req
     \<and> Uri req' = Uri req \<and> ReqVersion req' = ReqVersion req"
  by (simp add: request_header_def Let_def)

lemma request_headers_frame:
  "\<exists>req'. request_headers L ls req = Some req' \<and> Method req' = Method req
     \<and> Uri req' = Uri req \<and> ReqVersion req' = ReqVersion req"
proof (induction ls arbitrary: req)
  case Nil
  show ?case by simp
next
  case (Cons line rest)
  obtain r1 where r1: "request_header L line req = Some r1" "Method r1 = Method req"
      "Uri r1 = Uri req" "ReqVersion r1 = ReqVersion req"
    using request_header_frame [of L line req] by blast
  obtain r2 where r2: "request_headers L rest r1 = Some r2" "Method r2 = Method r1"
      "Uri r2 = Uri r1" "ReqVersion r2 = ReqVersion r1"
    using Cons.IH [of r1] by blast
  from r1 r2 show ?case by simp
qed

text \<open>
  C8. Lenient decoding. \<open>RequestDecoder\<close> returns a record for every byte sequence:
  no index it reads is out of range. The input always has a first CRLF-separated line,
  and when that line splits on single spaces into fewer than three tokens, the method,
  the target and the version of the result are empty.
\<close>

theorem RequestDecoder_lenient:
  "\<exists>req l0 rest. RequestDecoder L bytestream = Some req \<and> Split bytestream CRLF = l0 # rest
     \<and> (length (Split l0 '' '') < 3 \<longrightarrow> Method req = [] \<and> Uri req = [] \<and> ReqVersion req = [])"
proof -
  obtain l0 rest where ls: "Split bytestream CRLF = l0 # rest"
    by (cases "Split bytestream CRLF") simp_all
  define r0 where "r0 = (if length (Split l0 '' '') \<ge> 3
    then HttpRequest_zero\<lparr>Method := Split l0 '' '' ! 0, Uri := Split l0 '' '' ! 1,
      ReqVersion := Split l0 '' '' ! 2\<rparr>
    else HttpRequest_zero)"
  obtain r1 where r1: "request_headers L rest r0 = Some r1" "Method r1 = Method r0"
      "Uri r1 = Uri r0" "ReqVersion r1 = ReqVersion r0"
    using request_headers_frame [of L rest r0] by blast
  define r2 where "r2 = (if AcceptEncoding r1 = [] then r1\<lparr>AcceptEncoding := ''none''\<rparr> else r1)"
  have "RequestDecoder L bytestream = Some r2"
    using ls r1(1) unfolding r0_def r2_def
    by (cases "3 \<le> length (Split l0 '' '')") (simp_all add: RequestDecoder_def Let_def)
  moreover have "length (Split l0 '' '') < 3 \<longrightarrow> Method r2 = [] \<and> Uri r2 = [] \<and> ReqVersion r2 = []"
    using r1(2-4) by (simp add: r2_def r0_def HttpRequest_zero_def)
  ultimately show ?thesis using ls by blast
qed

theorem RequestDecoder_lenient_witness:
  "RequestDecoder sample_stdlib (''GET /'' @ CRLF @ ''Host: h'' @ CRLF @ CRLF)
     = Some \<lparr>Method = [], Uri = [], ReqVersion = [], Host = ''h'', Accept = [],
         AcceptEncoding = ''none''\<rparr>"
  using RequestDecoder_lenient [of sample_stdlib "''GET /'' @ CRLF @ ''Host: h'' @ CRLF @ CRLF"]
  by (simp add: RequestDecoder_def Split.simps HasPrefix_def CRLF_def CR_def LF_def
      request_header_def ToLower_def isASCII_def lower_byte_def char_of_def bit_Suc_0_iff
      HttpRequest_zero_def numeral_2_eq_2)

section \<open>The router\<close>

lemma handleGreet_ContentLength:
  "\<exists>res. handleGreet L req path query = Some res \<and> ContentLength res = int (length (Data res))"
  by (simp add: handleGreet_def Let_def handle404_def HttpResponse_zero_def split: option.splits)

text \<open>
  C7. Content-length invariant. For every request and every library instance,
  \<open>HandleRequest\<close> returns a response (no index it reads is out of range) whose
  \<open>ContentLength\<close> is the number of bytes of its \<open>Data\<close>; this is the record that
  \<open>HandleConnection\<close> passes to \<open>ResponseEncoder\<close>. All branches are covered: the
  page at \<open>/\<close>, the greet endpoint, and the responses 404, 400 and 500.
\<close>

theorem HandleRequest_ContentLength:
  "\<exists>res. HandleRequest L req = Some res \<and> ContentLength res = int (length (Data res))"
proof (cases "url_Parse L (Uri req)")
  case None
  then show ?thesis by (simp add: HandleRequest_def HttpResponse_zero_def)
next
  case (Some parsedURL)
  then show ?thesis
    using handleGreet_ContentLength [of L req "Path parsedURL" "Query parsedURL"]
    by (simp add: HandleRequest_def Let_def handleRoot_def handle404_def HttpResponse_zero_def)
qed

lemma Split_hd_takeWhile: "\<exists>rest. Split s [c] = takeWhile (\<lambda>x. x \<noteq> c) s # rest"
proof -
  define a where "a = takeWhile (\<lambda>x. x \<noteq> c) s"
  define d where "d = dropWhile (\<lambda>x. x \<noteq> c) s"
  have s: "s = a @ d"
    by (simp add: a_def d_def)
  have a: "c \<notin> set a"
    by (auto simp: a_def dest: set_takeWhileD)
  show ?thesis
  proof (cases d)
    case Nil
    with s a have "Split s [c] = [a]" by (simp add: Split_last)
    then show ?thesis unfolding a_def by blast
  next
    case (Cons x b)
    have "\<not> (hd d \<noteq> c)"
      unfolding d_def by (rule hd_dropWhile) (use Cons d_def in auto)
    with Cons have "x = c" by simp
    with Cons s have "Split s [c] = a # Split b [c]"
      by (simp add: Split_token [OF a])
    then show ?thesis unfolding a_def by blast
  qed
qed

lemma Split_greet: "Split (''/greet/'' @ rest) ''/'' = [] # ''greet'' # Split rest ''/''"
  using Split_token [of "CHR ''/''" "[]" "''greet/'' @ rest"]
    Split_token [of "CHR ''/''" "''greet''" rest]
  by simp

lemma handleGreet_mismatch:
  assumes "takeWhile (\<lambda>c. c \<noteq> CHR ''/'') rest \<noteq> STUDENT_NPM"
  shows "handleGreet L req (''/greet/'' @ rest) query = Some handle404"
proof -
  obtain tl where "Split rest ''/'' = takeWhile (\<lambda>c. c \<noteq> CHR ''/'') rest # tl"
    using Split_hd_takeWhile by blast
  then have "Split (''/greet/'' @ rest) ''/''
      = [] # ''greet'' # takeWhile (\<lambda>c. c \<noteq> CHR ''/'') rest # tl"
    by (simp only: Split_greet)
  with assms show ?thesis
    by (simp add: handleGreet_def Let_def)
qed

text \<open>
  C5. Error outcomes of the router.
  \<^item> When \<open>url.Parse\<close> rejects the target, the response is 400 with no body.
  \<^item> When the path is \<open>/greet/\<close> followed by \<open>rest\<close> and the segment of \<open>rest\<close> before
    its first slash (all of \<open>rest\<close> when it has none) is not the configured identity,
    the response is 404 with no body.
  \<^item> When the path is not \<open>/\<close> and does not start with \<open>/greet/\<close>, the response is 404,
    version \<open>HTTP/1.1\<close>, with no body.
\<close>

theorem HandleRequest_errors:
  "(url_Parse L (Uri req) = None \<longrightarrow>
      HandleRequest L req = Some \<lparr>Version = ''HTTP/1.1'', StatusCode = ''400'', ContentType = [],
        ContentEncoding = [], ContentLength = 0, Data = []\<rparr>)
   \<and> (\<forall>u rest. url_Parse L (Uri req) = Some u \<and> Path u = ''/greet/'' @ rest
          \<and> takeWhile (\<lambda>c. c \<noteq> CHR ''/'') rest \<noteq> STUDENT_NPM \<longrightarrow>
      HandleRequest L req = Some \<lparr>Version = ''HTTP/1.1'', StatusCode = ''404'', ContentType = [],
        ContentEncoding = [], ContentLength = 0, Data = []\<rparr>)
   \<and> (\<forall>u. url_Parse L (Uri req) = Some u \<and> Path u \<noteq> ''/'' \<and> \<not> HasPrefix (Path u) ''/greet/'' \<longrightarrow>
      HandleRequest L req = Some \<lparr>Version = ''HTTP/1.1'', StatusCode = ''404'', ContentType = [],
        ContentEncoding = [], ContentLength = 0, Data = []\<rparr>)"
proof (intro conjI allI impI)
  assume "url_Parse L (Uri req) = None"
  then show "HandleRequest L req = Some \<lparr>Version = ''HTTP/1.1'', StatusCode = ''400'',
      ContentType = [], ContentEncoding = [], ContentLength = 0, Data = []\<rparr>"
    by (simp add: HandleRequest_def HttpResponse_zero_def)
next
  fix u rest
  assume a: "url_Parse L (Uri req) = Some u \<and> Path u = ''/greet/'' @ rest
    \<and> takeWhile (\<lambda>c. c \<noteq> CHR ''/'') rest \<noteq> STUDENT_NPM"
  then have "handleGreet L req (Path u) (Query u) = Some handle404"
    using handleGreet_mismatch [of rest L req "Query u"] by simp
  with a show "HandleRequest L req = Some \<lparr>Version = ''HTTP/1.1'', StatusCode = ''404'',
      ContentType = [], ContentEncoding = [], ContentLength = 0, Data = []\<rparr>"
    by (simp add: HandleRequest_def Let_def HasPrefix_def handle404_def HttpResponse_zero_def)
next
  fix u
  assume "url_Parse L (Uri req) = Some u \<and> Path u \<noteq> ''/'' \<and> \<not> HasPrefix (Path u) ''/greet/''"
  then show "HandleRequest L req = Some \<lparr>Version = ''HTTP/1.1'', StatusCode = ''404'',
      ContentType = [], ContentEncoding = [], ContentLength = 0, Data = []\<rparr>"
    by (simp add: HandleRequest_def Let_def handle404_def HttpResponse_zero_def)
qed

lemmas sample_defs = sample_stdlib_def sample_url_Parse_def sample_Query_def
  sample_json_Marshal_def sample_xml_Marshal_def

theorem HandleRequest_ContentLength_witness:
  "HandleRequest sample_stdlib \<lparr>Method = ''GET'', Uri = ''/'', ReqVersion = ''HTTP/1.1'',
      Host = ''127.0.0.1:6636'', Accept = ''text/html'', AcceptEncoding = ''none''\<rparr>
   = Some \<lparr>Version = ''HTTP/1.1'', StatusCode = ''200'', ContentType = ''text/html'',
       ContentEncoding = ''none'', ContentLength = 98,
       Data = ''<html><body><h1>Halo, dunia! Aku Muhammad Raihan Maulana sedang mengerjakan A03</h1></body></html>''\<rparr>"
  using HandleRequest_ContentLength [of sample_stdlib "\<lparr>Method = ''GET'', Uri = ''/'',
      ReqVersion = ''HTTP/1.1'', Host = ''127.0.0.1:6636'', Accept = ''text/html'',
      AcceptEncoding = ''none''\<rparr>"]
  by (simp add: HandleRequest_def sample_defs handleRoot_def HttpResponse_zero_def
      STUDENT_NAME_def Let_def)

theorem HandleRequest_errors_witness:
  "HandleRequest sample_stdlib \<lparr>Method = ''GET'', Uri = [CHR 0x01], ReqVersion = ''HTTP/1.1'',
      Host = ''h'', Accept = ''a'', AcceptEncoding = ''none''\<rparr>
     = Some \<lparr>Version = ''HTTP/1.1'', StatusCode = ''400'', ContentType = [],
         ContentEncoding = [], ContentLength = 0, Data = []\<rparr>
   \<and> HandleRequest sample_stdlib \<lparr>Method = ''GET'', Uri = ''/greet/123'', ReqVersion = ''HTTP/1.1'',
      Host = ''h'', Accept = ''a'', AcceptEncoding = ''none''\<rparr>
     = Some \<lparr>Version = ''HTTP/1.1'', StatusCode = ''404'', ContentType = [],
         ContentEncoding = [], ContentLength = 0, Data = []\<rparr>
   \<and> HandleRequest sample_stdlib \<lparr>Method = ''GET'', Uri = ''/unknown-path'', ReqVersion = ''HTTP/1.1'',
      Host = ''h'', Accept = ''a'', AcceptEncoding = ''none''\<rparr>
     = Some \<lparr>Version = ''HTTP/1.1'', StatusCode = ''404'', ContentType = [],
         ContentEncoding = [], ContentLength = 0, Data = []\<rparr>"
  using HandleRequest_errors [of sample_stdlib "\<lparr>Method = ''GET'', Uri = [CHR 0x01],
      ReqVersion = ''HTTP/1.1'', Host = ''h'', Accept = ''a'', AcceptEncoding = ''none''\<rparr>"]
    HandleRequest_errors [of sample_stdlib "\<lparr>Method = ''GET'', Uri = ''/greet/123'',
      ReqVersion = ''HTTP/1.1'', Host = ''h'', Accept = ''a'', AcceptEncoding = ''none''\<rparr>"]
    HandleRequest_errors [of sample_stdlib "\<lparr>Method = ''GET'', Uri = ''/unknown-path'',
      ReqVersion = ''HTTP/1.1'', Host = ''h'', Accept = ''a'', AcceptEncoding = ''none''\<rparr>"]
  by (simp add: sample_defs STUDENT_NPM_def HasPrefix_def)

lemma Split_greet_NPM:
  "Split (''/greet/'' @ STUDENT_NPM) ''/'' = [[], ''greet'', STUDENT_NPM]"
  using Split_last [of "CHR ''/''" STUDENT_NPM]
  by (simp only: Split_greet) (simp add: STUDENT_NPM_def)

lemma Split_greet_NPM_more:
  "Split (''/greet/'' @ STUDENT_NPM @ ''/'' @ anything) ''/''
     = [] # ''greet'' # STUDENT_NPM # Split anything ''/''"
  using Split_token [of "CHR ''/''" STUDENT_NPM anything]
  by (simp only: Split_greet) (simp add: STUDENT_NPM_def)

lemma handleGreet_parts:
  "Split p1 ''/'' = a # b # c # r1 \<Longrightarrow> Split p2 ''/'' = a # b # c # r2 \<Longrightarrow>
   handleGreet L req p1 query = handleGreet L req p2 query"
  by (simp add: handleGreet_def Let_def)

lemma handleGreet_valid:
  assumes "Split path ''/'' = a # b # STUDENT_NPM # r"
    and "\<forall>g. json_Marshal L g \<noteq> None \<and> xml_Marshal L g \<noteq> None"
  shows "\<exists>res. handleGreet L req path query = Some res \<and> StatusCode res = ''200''"
proof -
  let ?g = "\<lparr>Student = \<lparr>Nama = STUDENT_NAME, Npm = STUDENT_NPM\<rparr>,
    Greeter = (if Values_Get query ''name'' \<noteq> [] then Values_Get query ''name''
               else STUDENT_NAME)\<rparr>"
  from assms(2) obtain bj bx where "json_Marshal L ?g = Some bj" "xml_Marshal L ?g = Some bx"
    by (metis not_None_eq)
  with assms(1) show ?thesis
    by (simp add: handleGreet_def Let_def HttpResponse_zero_def)
qed

text \<open>
  C10. Trailing path segments are ignored. A path \<open>/greet/<identity>/<anything>\<close> is
  handled exactly as the path \<open>/greet/<identity>\<close> (only the third piece of the path
  split on \<open>/\<close> is compared with the identity), and the response has status 200
  whenever the marshallers return no error, as \<open>json.Marshal\<close> and \<open>xml.Marshal\<close> do
  on a record of strings.
\<close>

theorem handleGreet_trailing_segments:
  "handleGreet L req (''/greet/'' @ STUDENT_NPM @ ''/'' @ anything) query
     = handleGreet L req (''/greet/'' @ STUDENT_NPM) query
   \<and> (\<forall>u. url_Parse L (Uri req) = Some u
          \<and> Path u = ''/greet/'' @ STUDENT_NPM @ ''/'' @ anything
          \<and> (\<forall>g. json_Marshal L g \<noteq> None \<and> xml_Marshal L g \<noteq> None) \<longrightarrow>
        (\<exists>res. HandleRequest L req = Some res \<and> StatusCode res = ''200''))"
proof (intro conjI allI impI)
  show "handleGreet L req (''/greet/'' @ STUDENT_NPM @ ''/'' @ anything) query
     = handleGreet L req (''/greet/'' @ STUDENT_NPM) query"
    by (rule handleGreet_parts [OF Split_greet_NPM_more Split_greet_NPM])
next
  fix u
  assume a: "url_Parse L (Uri req) = Some u
    \<and> Path u = ''/greet/'' @ STUDENT_NPM @ ''/'' @ anything
    \<and> (\<forall>g. json_Marshal L g \<noteq> None \<and> xml_Marshal L g \<noteq> None)"
  then obtain res where "handleGreet L req (Path u) (Query u) = Some res" "StatusCode res = ''200''"
    using handleGreet_valid [OF Split_greet_NPM_more [of anything], where L = L and req = req
        and query = "Query u"] by auto
  with a show "\<exists>res. HandleRequest L req = Some res \<and> StatusCode res = ''200''"
    by (simp add: HandleRequest_def Let_def HasPrefix_def)
qed

theorem handleGreet_trailing_segments_witness:
  "HandleRequest sample_stdlib \<lparr>Method = ''GET'', Uri = ''/greet/2306216636/x/y'',
      ReqVersion = ''HTTP/1.1'', Host = ''h'', Accept = ''application/xml'',
      AcceptEncoding = ''none''\<rparr>
   = Some \<lparr>Version = ''HTTP/1.1'', StatusCode = ''200'', ContentType = ''application/xml'',
       ContentEncoding = ''none'', ContentLength = 149,
       Data = ''<GreetResponse><Student><Nama>Muhammad Raihan Maulana</Nama><Npm>2306216636</Npm></Student><Greeter>Muhammad Raihan Maulana</Greeter></GreetResponse>''\<rparr>"
  using handleGreet_trailing_segments [of sample_stdlib "\<lparr>Method = ''GET'',
      Uri = ''/greet/2306216636/x/y'', ReqVersion = ''HTTP/1.1'', Host = ''h'',
      Accept = ''application/xml'', AcceptEncoding = ''none''\<rparr>" "''x/y''" Map.empty]
    Split_greet_NPM_more [of "''x/y''"]
  by (simp add: HandleRequest_def handleGreet_def sample_defs Let_def HasPrefix_def
      Split.simps STUDENT_NPM_def STUDENT_NAME_def Values_Get_def determineContentType_def
      determineEncoding_def ToLower_def isASCII_def lower_byte_def Contains_def
      HttpResponse_zero_def)

section \<open>The greet endpoint\<close>

lemma determineContentType_json: "determineContentType L ''application/json'' = ''application/json''"
  by (simp add: determineContentType_def ToLower_def isASCII_def lower_byte_def Contains_def
      HasPrefix_def)

lemma determineEncoding_none: "determineEncoding L ''none'' = ''none''"
  by (simp add: determineEncoding_def ToLower_def isASCII_def lower_byte_def Contains_def
      HasPrefix_def)

text \<open>
  C6. A valid greet exchange. The target is \<open>/greet/<identity>?name=Ada\<close>, which
  \<open>url.Parse\<close> splits into the path \<open>/greet/<identity>\<close> and a query whose \<open>name\<close> is
  \<open>Ada\<close>; \<open>Accept\<close> is \<open>application/json\<close> and \<open>Accept-Encoding\<close> is \<open>none\<close>. With
  \<open>body\<close> the JSON serialization of the payload (student name and identity as
  configured, greeter \<open>Ada\<close>), the response has status 200, content type
  \<open>application/json\<close>, the content encoding \<open>none\<close> and the data \<open>body\<close>, and its
  encoding on the wire has a \<open>Content-Type\<close> and a \<open>Content-Length\<close> header and no
  \<open>Content-Encoding\<close> header. The method of the request is not consulted.
\<close>

theorem HandleRequest_greet_json:
  assumes "Uri req = ''/greet/'' @ STUDENT_NPM @ ''?name=Ada''"
    and "Accept req = ''application/json''"
    and "AcceptEncoding req = ''none''"
    and "url_Parse L (Uri req) = Some u"
    and "Path u = ''/greet/'' @ STUDENT_NPM"
    and "Values_Get (Query u) ''name'' = ''Ada''"
    and "json_Marshal L \<lparr>Student = \<lparr>Nama = STUDENT_NAME, Npm = STUDENT_NPM\<rparr>,
           Greeter = ''Ada''\<rparr> = Some body"
  shows "HandleRequest L req
           = Some \<lparr>Version = ''HTTP/1.1'', StatusCode = ''200'',
               ContentType = ''application/json'', ContentEncoding = ''none'',
               ContentLength = int (length body), Data = body\<rparr>
         \<and> ResponseEncoder \<lparr>Version = ''HTTP/1.1'', StatusCode = ''200'',
               ContentType = ''application/json'', ContentEncoding = ''none'',
               ContentLength = int (length body), Data = body\<rparr>
           = ''HTTP/1.1 200 OK'' @ CRLF @ ''Content-Type: application/json'' @ CRLF
             @ ''Content-Length: '' @ FormatInt (int (length body)) @ CRLF @ CRLF @ body"
proof
  have "handleGreet L req (''/greet/'' @ STUDENT_NPM) (Query u)
      = Some \<lparr>Version = ''HTTP/1.1'', StatusCode = ''200'',
               ContentType = ''application/json'', ContentEncoding = ''none'',
               ContentLength = int (length body), Data = body\<rparr>"
    using assms(2,3,6,7) Split_greet_NPM
    by (simp add: handleGreet_def Let_def determineContentType_json determineEncoding_none
        HttpResponse_zero_def)
  with assms(4,5) show "HandleRequest L req
           = Some \<lparr>Version = ''HTTP/1.1'', StatusCode = ''200'',
               ContentType = ''application/json'', ContentEncoding = ''none'',
               ContentLength = int (length body), Data = body\<rparr>"
    by (simp add: HandleRequest_def Let_def HasPrefix_def)
next
  show "ResponseEncoder \<lparr>Version = ''HTTP/1.1'', StatusCode = ''200'',
               ContentType = ''application/json'', ContentEncoding = ''none'',
               ContentLength = int (length body), Data = body\<rparr>
           = ''HTTP/1.1 200 OK'' @ CRLF @ ''Content-Type: application/json'' @ CRLF
             @ ''Content-Length: '' @ FormatInt (int (length body)) @ CRLF @ CRLF @ body"
    by (simp add: ResponseEncoder_def)
qed

theorem HandleRequest_greet_json_witness:
  "HandleRequest sample_stdlib \<lparr>Method = ''GET'', Uri = ''/greet/2306216636?name=Ada'',
      ReqVersion = ''HTTP/1.1'', Host = ''127.0.0.1:6636'', Accept = ''application/json'',
      AcceptEncoding = ''none''\<rparr>
   = Some \<lparr>Version = ''HTTP/1.1'', StatusCode = ''200'', ContentType = ''application/json'',
       ContentEncoding = ''none'', ContentLength = 81,
       Data = ''{'' @ [CHR 0x22] @ ''Student'' @ [CHR 0x22] @ '':{'' @ [CHR 0x22] @ ''Nama''
         @ [CHR 0x22] @ '':'' @ [CHR 0x22] @ ''Muhammad Raihan Maulana'' @ [CHR 0x22] @ '',''
         @ [CHR 0x22] @ ''Npm'' @ [CHR 0x22] @ '':'' @ [CHR 0x22] @ ''2306216636'' @ [CHR 0x22]
         @ ''},'' @ [CHR 0x22] @ ''Greeter'' @ [CHR 0x22] @ '':'' @ [CHR 0x22] @ ''Ada''
         @ [CHR 0x22] @ ''}''\<rparr>"
  using HandleRequest_greet_json [of "\<lparr>Method = ''GET'', Uri = ''/greet/2306216636?name=Ada'',
      ReqVersion = ''HTTP/1.1'', Host = ''127.0.0.1:6636'', Accept = ''application/json'',
      AcceptEncoding = ''none''\<rparr>" sample_stdlib
      "\<lparr>Path = ''/greet/2306216636'', Query = [''name'' \<mapsto> [''Ada'']]\<rparr>"
      "''{'' @ [CHR 0x22] @ ''Student'' @ [CHR 0x22] @ '':{'' @ [CHR 0x22] @ ''Nama''
         @ [CHR 0x22] @ '':'' @ [CHR 0x22] @ ''Muhammad Raihan Maulana'' @ [CHR 0x22] @ '',''
         @ [CHR 0x22] @ ''Npm'' @ [CHR 0x22] @ '':'' @ [CHR 0x22] @ ''2306216636'' @ [CHR 0x22]
         @ ''},'' @ [CHR 0x22] @ ''Greeter'' @ [CHR 0x22] @ '':'' @ [CHR 0x22] @ ''Ada''
         @ [CHR 0x22] @ ''}''"]
  by (simp add: sample_defs STUDENT_NPM_def STUDENT_NAME_def Values_Get_def)

section \<open>Request round trip\<close>

lemma SplitN_header:
  "CHR '':'' \<notin> set name \<Longrightarrow> SplitN (name @ '': '' @ v) '': '' 2 = [name, v]"
  using Index_at_hd [of "CHR '':''" name "'' ''" v]
  by (simp add: numeral_2_eq_2)

lemma request_header_Host:
  "request_header L (''Host: '' @ v) req = Some (req\<lparr>Host := v\<rparr>)"
  using SplitN_header [of "''Host''" v]
  by (simp add: request_header_def ToLower_def isASCII_def lower_byte_def char_of_def
      bit_Suc_0_iff)

lemma request_header_Accept:
  "request_header L (''Accept: '' @ v) req = Some (req\<lparr>Accept := v\<rparr>)"
  using SplitN_header [of "''Accept''" v]
  by (simp add: request_header_def ToLower_def isASCII_def lower_byte_def char_of_def
      bit_Suc_0_iff)

lemma request_header_AcceptEncoding:
  "request_header L (''Accept-Encoding: '' @ v) req = Some (req\<lparr>AcceptEncoding := v\<rparr>)"
  using SplitN_header [of "''Accept-Encoding''" v]
  by (simp add: request_header_def ToLower_def isASCII_def lower_byte_def char_of_def
      bit_Suc_0_iff)

lemma Split_three_tokens:
  assumes "CHR '' '' \<notin> set a" "CHR '' '' \<notin> set b" "CHR '' '' \<notin> set c"
  shows "Split (a @ '' '' @ b @ '' '' @ c) '' '' = [a, b, c]"
  using Split_token [OF assms(1), of "b @ '' '' @ c"] Split_token [OF assms(2), of c]
    Split_last [OF assms(3)]
  by simp

lemma Split_blank: "Split (CRLF @ b) CRLF = [] # Split b CRLF"
  using Split_line [OF no_CRLF_Nil, of b] by simp

lemma Split_Nil_CRLF: "Split [] CRLF = [[]]"
  by (simp add: Split_None CRLF_def)

lemma no_CRLF_request_line:
  assumes "\<not> Contains a CRLF" "\<not> Contains b CRLF" "\<not> Contains c CRLF"
  shows "\<not> Contains (a @ '' '' @ b @ '' '' @ c) CRLF"
proof -
  have sp: "CHR '' '' \<noteq> CR" "CHR '' '' \<noteq> LF"
    by (simp_all add: CR_def LF_def)
  have "\<not> Contains (CHR '' '' # c) CRLF"
    using sp(1) assms(3) by (rule no_CRLF_Cons)
  then have "\<not> Contains (b @ CHR '' '' # c) CRLF"
    using assms(2) sp(2) by (intro no_CRLF_append)
  then have "\<not> Contains (CHR '' '' # b @ CHR '' '' # c) CRLF"
    using sp(1) by (intro no_CRLF_Cons)
  then have "\<not> Contains (a @ CHR '' '' # b @ CHR '' '' # c) CRLF"
    using assms(1) sp(2) by (intro no_CRLF_append)
  then show ?thesis by simp
qed

text \<open>
  C2, as amended. Request round trip. For every request whose method, target and
  version contain no space, none of whose six fields contains CRLF, and whose
  accept-encoding is not empty, decoding the encoded request gives the request back.
  This includes the accept-encoding \<open>none\<close>: then no \<open>Accept-Encoding\<close> header is on
  the wire, and the decoder restores \<open>none\<close>.
\<close>

theorem RequestDecoder_RequestEncoder:
  assumes sp: "CHR '' '' \<notin> set (Method req)" "CHR '' '' \<notin> set (Uri req)"
      "CHR '' '' \<notin> set (ReqVersion req)"
    and nl: "\<not> Contains (Method req) CRLF" "\<not> Contains (Uri req) CRLF"
      "\<not> Contains (ReqVersion req) CRLF" "\<not> Contains (Host req) CRLF"
      "\<not> Contains (Accept req) CRLF" "\<not> Contains (AcceptEncoding req) CRLF"
    and ne: "AcceptEncoding req \<noteq> []"
  shows "RequestDecoder L (RequestEncoder req) = Some req
    \<and> (AcceptEncoding req = ''none'' \<longrightarrow>
         RequestEncoder req = Method req @ '' '' @ Uri req @ '' '' @ ReqVersion req @ CRLF
           @ ''Host: '' @ Host req @ CRLF @ ''Accept: '' @ Accept req @ CRLF @ CRLF)"
proof
  show "AcceptEncoding req = ''none'' \<longrightarrow>
         RequestEncoder req = Method req @ '' '' @ Uri req @ '' '' @ ReqVersion req @ CRLF
           @ ''Host: '' @ Host req @ CRLF @ ''Accept: '' @ Accept req @ CRLF @ CRLF"
    by (simp add: RequestEncoder_def)
next
  define l0 where "l0 = Method req @ '' '' @ Uri req @ '' '' @ ReqVersion req"
  define hl where "hl = ''Host: '' @ Host req"
  define al where "al = ''Accept: '' @ Accept req"
  define el where "el = ''Accept-Encoding: '' @ AcceptEncoding req"
  define r0 where "r0 = HttpRequest_zero\<lparr>Method := Method req, Uri := Uri req,
    ReqVersion := ReqVersion req\<rparr>"
  have n0: "\<not> Contains l0 CRLF"
    unfolding l0_def using nl(1-3) by (rule no_CRLF_request_line)
  have nh: "\<not> Contains hl CRLF" "\<not> Contains al CRLF" "\<not> Contains el CRLF"
    unfolding hl_def al_def el_def using nl(4-6)
    by (simp_all add: Contains_Cons HasPrefix_def CRLF_def CR_def)
  have t0: "Split l0 '' '' = [Method req, Uri req, ReqVersion req]"
    unfolding l0_def using sp by (rule Split_three_tokens)
  have hne: "hl \<noteq> []" "al \<noteq> []" "el \<noteq> []"
    by (simp_all add: hl_def al_def el_def)
  have h1: "request_header L hl r0 = Some (r0\<lparr>Host := Host req\<rparr>)"
    unfolding hl_def by (rule request_header_Host)
  have h2: "request_header L al (r0\<lparr>Host := Host req\<rparr>)
      = Some (r0\<lparr>Host := Host req, Accept := Accept req\<rparr>)"
    unfolding al_def by (rule request_header_Accept)
  have h3: "request_header L el (r0\<lparr>Host := Host req, Accept := Accept req\<rparr>)
      = Some (r0\<lparr>Host := Host req, Accept := Accept req,
          AcceptEncoding := AcceptEncoding req\<rparr>)"
    unfolding el_def by (rule request_header_AcceptEncoding)
  show "RequestDecoder L (RequestEncoder req) = Some req"
  proof (cases "AcceptEncoding req = ''none''")
    case True
    have enc: "RequestEncoder req = l0 @ CRLF @ hl @ CRLF @ al @ CRLF @ CRLF @ []"
      using True by (simp add: RequestEncoder_def l0_def hl_def al_def)
    have lines: "Split (RequestEncoder req) CRLF = [l0, hl, al, [], []]"
      unfolding enc
      by (simp only: Split_line [OF n0] Split_line [OF nh(1)] Split_line [OF nh(2)]
          Split_blank Split_Nil_CRLF)
    have "request_headers L [hl, al, [], []] r0
        = Some (r0\<lparr>Host := Host req, Accept := Accept req\<rparr>)"
      using hne h1 h2 by simp
    then have "RequestDecoder L (RequestEncoder req)
        = Some (r0\<lparr>Host := Host req, Accept := Accept req, AcceptEncoding := ''none''\<rparr>)"
      by (simp add: RequestDecoder_def lines t0 r0_def HttpRequest_zero_def)
    also have "r0\<lparr>Host := Host req, Accept := Accept req, AcceptEncoding := ''none''\<rparr> = req"
      using True by (simp add: r0_def HttpRequest_zero_def)
    finally show ?thesis .
  next
    case False
    have enc: "RequestEncoder req = l0 @ CRLF @ hl @ CRLF @ al @ CRLF @ el @ CRLF @ CRLF @ []"
      using False by (simp add: RequestEncoder_def l0_def hl_def al_def el_def)
    have lines: "Split (RequestEncoder req) CRLF = [l0, hl, al, el, [], []]"
      unfolding enc
      by (simp only: Split_line [OF n0] Split_line [OF nh(1)] Split_line [OF nh(2)]
          Split_line [OF nh(3)] Split_blank Split_Nil_CRLF)
    have "request_headers L [hl, al, el, [], []] r0
        = Some (r0\<lparr>Host := Host req, Accept := Accept req,
            AcceptEncoding := AcceptEncoding req\<rparr>)"
      using hne h1 h2 h3 by simp
    then have "RequestDecoder L (RequestEncoder req)
        = Some (r0\<lparr>Host := Host req, Accept := Accept req,
            AcceptEncoding := AcceptEncoding req\<rparr>)"
      using ne by (simp add: RequestDecoder_def lines t0 r0_def HttpRequest_zero_def)
    also have "r0\<lparr>Host := Host req, Accept := Accept req,
        AcceptEncoding := AcceptEncoding req\<rparr> = req"
      by (simp add: r0_def HttpRequest_zero_def)
    finally show ?thesis .
  qed
qed

lemmas eval_defs = Split.simps HasPrefix_def Contains_def CRLF_def CR_def LF_def
  ToLower_def isASCII_def lower_byte_def char_of_def bit_Suc_0_iff numeral_2_eq_2

theorem RequestDecoder_RequestEncoder_witness:
  "RequestDecoder sample_stdlib (RequestEncoder \<lparr>Method = ''GET'',
      Uri = ''/greet/2306216636?name=Ada'', ReqVersion = ''HTTP/1.1'', Host = ''127.0.0.1:6636'',
      Accept = ''application/json'', AcceptEncoding = ''gzip''\<rparr>)
   = Some \<lparr>Method = ''GET'', Uri = ''/greet/2306216636?name=Ada'', ReqVersion = ''HTTP/1.1'',
       Host = ''127.0.0.1:6636'', Accept = ''application/json'', AcceptEncoding = ''gzip''\<rparr>
   \<and> RequestDecoder sample_stdlib (RequestEncoder \<lparr>Method = ''GET'', Uri = ''/'',
      ReqVersion = ''HTTP/1.1'', Host = ''127.0.0.1:6636'', Accept = ''text/html'',
      AcceptEncoding = ''none''\<rparr>)
   = Some \<lparr>Method = ''GET'', Uri = ''/'', ReqVersion = ''HTTP/1.1'',
       Host = ''127.0.0.1:6636'', Accept = ''text/html'', AcceptEncoding = ''none''\<rparr>"
  using RequestDecoder_RequestEncoder [THEN conjunct1, of "\<lparr>Method = ''GET'',
      Uri = ''/greet/2306216636?name=Ada'', ReqVersion = ''HTTP/1.1'', Host = ''127.0.0.1:6636'',
      Accept = ''application/json'', AcceptEncoding = ''gzip''\<rparr>" sample_stdlib]
    RequestDecoder_RequestEncoder [THEN conjunct1, of "\<lparr>Method = ''GET'', Uri = ''/'',
      ReqVersion = ''HTTP/1.1'', Host = ''127.0.0.1:6636'', Accept = ''text/html'',
      AcceptEncoding = ''none''\<rparr>" sample_stdlib]
  by (simp add: Contains_def HasPrefix_def CRLF_def CR_def LF_def)

text \<open>
  The round trip does not hold for every request record. An empty accept-encoding (the
  client sends what the user typed, and the line may be empty) is written as a header
  with an empty value and comes back as \<open>none\<close>; a target with a space (the client
  builds the target from the unescaped path of the URL) comes back cut at the space,
  with the rest taken for the version.
\<close>

theorem RequestDecoder_RequestEncoder_counterexample:
  "RequestDecoder sample_stdlib (RequestEncoder \<lparr>Method = ''GET'', Uri = ''/'',
      ReqVersion = ''HTTP/1.1'', Host = ''127.0.0.1:6636'', Accept = ''text/html'',
      AcceptEncoding = []\<rparr>)
   = Some \<lparr>Method = ''GET'', Uri = ''/'', ReqVersion = ''HTTP/1.1'',
       Host = ''127.0.0.1:6636'', Accept = ''text/html'', AcceptEncoding = ''none''\<rparr>
   \<and> RequestDecoder sample_stdlib (RequestEncoder \<lparr>Method = ''GET'', Uri = ''/a b'',
      ReqVersion = ''HTTP/1.1'', Host = ''127.0.0.1:6636'', Accept = ''text/html'',
      AcceptEncoding = ''gzip''\<rparr>)
   = Some \<lparr>Method = ''GET'', Uri = ''/a'', ReqVersion = ''b'',
       Host = ''127.0.0.1:6636'', Accept = ''text/html'', AcceptEncoding = ''gzip''\<rparr>"
  by (simp add: RequestDecoder_def RequestEncoder_def request_header_def HttpRequest_zero_def
      eval_defs)

section \<open>Response round trip\<close>

lemma response_header_ContentType:
  "response_header L (''Content-Type: '' @ v) res = Some (res\<lparr>ContentType := v\<rparr>)"
  using SplitN_header [of "''Content-Type''" v]
  by (simp add: response_header_def ToLower_def isASCII_def lower_byte_def char_of_def
      bit_Suc_0_iff)

lemma response_header_ContentEncoding:
  "response_header L (''Content-Encoding: '' @ v) res = Some (res\<lparr>ContentEncoding := v\<rparr>)"
  using SplitN_header [of "''Content-Encoding''" v]
  by (simp add: response_header_def ToLower_def isASCII_def lower_byte_def char_of_def
      bit_Suc_0_iff)

lemma response_header_ContentLength:
  "Atoi v = Some n \<Longrightarrow>
   response_header L (''Content-Length: '' @ v) res = Some (res\<lparr>ContentLength := n\<rparr>)"
  using SplitN_header [of "''Content-Length''" v]
  by (simp add: response_header_def ToLower_def isASCII_def lower_byte_def char_of_def
      bit_Suc_0_iff)

lemma no_CRLF_status_line:
  assumes "\<not> Contains a CRLF" "\<not> Contains b CRLF"
  shows "\<not> Contains (a @ '' '' @ b @ '' OK'') CRLF"
  using no_CRLF_request_line [OF assms, of "''OK''"]
  by (simp add: Contains_def HasPrefix_def CRLF_def CR_def)

lemma Split_status_line:
  assumes "CHR '' '' \<notin> set a" "CHR '' '' \<notin> set b"
  shows "Split (a @ '' '' @ b @ '' OK'') '' '' = [a, b, ''OK'']"
  using Split_three_tokens [OF assms, of "''OK''"] by simp

lemma Split_lines:
  "\<forall>h \<in> set hs. \<not> Contains h CRLF \<Longrightarrow>
   Split (concat (map (\<lambda>h. h @ CRLF) hs) @ rest) CRLF = hs @ Split rest CRLF"
  by (induction hs) (simp_all add: Split_line)

text \<open>
  C1, as amended. Response round trip. For every response whose content-length is the
  number of bytes of its data, whose version and status contain no space, and none of
  whose version, status, content-type and content-encoding contains CRLF: decoding the
  encoded response gives back the version, the status, the content-type, the
  content-length and the data exactly, whatever the bytes of the data are (CRLF
  included: splitting on CRLF and joining with CRLF is the identity, \<open>Join_Split\<close>);
  the content-encoding comes back as it was, except \<open>none\<close>, which comes back as the
  empty string. The bound on the length is the range of Go's \<open>int\<close>.
\<close>

theorem ResponseDecoder_ResponseEncoder:
  assumes len: "ContentLength res = int (length (Data res))" "length (Data res) < 2 ^ 63"
    and sp: "CHR '' '' \<notin> set (Version res)" "CHR '' '' \<notin> set (StatusCode res)"
    and nl: "\<not> Contains (Version res) CRLF" "\<not> Contains (StatusCode res) CRLF"
      "\<not> Contains (ContentType res) CRLF" "\<not> Contains (ContentEncoding res) CRLF"
  shows "ResponseDecoder L (ResponseEncoder res)
    = Some (res\<lparr>ContentEncoding :=
        (if ContentEncoding res = ''none'' then [] else ContentEncoding res)\<rparr>)"
proof -
  define l0 where "l0 = Version res @ '' '' @ StatusCode res @ '' OK''"
  define tl where "tl = ''Content-Type: '' @ ContentType res"
  define el where "el = ''Content-Encoding: '' @ ContentEncoding res"
  define cl where "cl = ''Content-Length: '' @ FormatInt (ContentLength res)"
  define hs where "hs = (if ContentType res \<noteq> [] then [tl] else [])
    @ (if ContentEncoding res \<noteq> [] \<and> ContentEncoding res \<noteq> ''none'' then [el] else [])
    @ [cl]"
  define bl where "bl = Split (Data res) CRLF"
  define r0 where "r0 = HttpResponse_zero\<lparr>Version := Version res,
    StatusCode := StatusCode res\<rparr>"
  define rf where "rf = r0\<lparr>ContentType := ContentType res,
    ContentEncoding := (if ContentEncoding res = ''none'' then [] else ContentEncoding res),
    ContentLength := ContentLength res\<rparr>"
  have n0: "\<not> Contains l0 CRLF"
    unfolding l0_def using nl(1,2) by (rule no_CRLF_status_line)
  have l0ne: "l0 \<noteq> []"
    by (simp add: l0_def)
  have nt: "\<not> Contains tl CRLF" "\<not> Contains el CRLF"
    unfolding tl_def el_def using nl(3,4)
    by (simp_all add: Contains_Cons HasPrefix_def CRLF_def CR_def)
  have "\<not> Contains (FormatInt (ContentLength res)) CRLF"
    by (rule no_CRLF_no_CR) (rule FormatInt_no_CR)
  then have nc: "\<not> Contains cl CRLF"
    unfolding cl_def by (simp add: Contains_Cons HasPrefix_def CRLF_def CR_def)
  have nhs: "\<forall>h \<in> set hs. \<not> Contains h CRLF"
    using nt nc by (auto simp: hs_def)
  have t0: "Split l0 '' '' = [Version res, StatusCode res, ''OK'']"
    unfolding l0_def using sp by (rule Split_status_line)
  have enc: "ResponseEncoder res
      = l0 @ CRLF @ concat (map (\<lambda>h. h @ CRLF) hs) @ CRLF @ Data res"
    by (simp add: ResponseEncoder_def l0_def hs_def tl_def el_def cl_def)
  have lines: "Split (ResponseEncoder res) CRLF = l0 # hs @ [] # bl"
    unfolding enc bl_def by (simp only: Split_line [OF n0] Split_lines [OF nhs] Split_blank)
  have hne: "tl \<noteq> []" "el \<noteq> []" "cl \<noteq> []"
    by (simp_all add: tl_def el_def cl_def)
  have at: "Atoi (FormatInt (ContentLength res)) = Some (ContentLength res)"
    using len by (intro Atoi_FormatInt) simp_all
  have h1: "\<And>r. response_header L tl r = Some (r\<lparr>ContentType := ContentType res\<rparr>)"
    unfolding tl_def by (rule response_header_ContentType)
  have h2: "\<And>r. response_header L el r = Some (r\<lparr>ContentEncoding := ContentEncoding res\<rparr>)"
    unfolding el_def by (rule response_header_ContentEncoding)
  have h3: "\<And>r. response_header L cl r = Some (r\<lparr>ContentLength := ContentLength res\<rparr>)"
    unfolding cl_def using at by (rule response_header_ContentLength)
  have run: "response_headers L (l0 # hs @ [] # bl) 0 r0 = Some (rf, Suc (length hs))"
    using l0ne hne h1 h2 h3
    by (simp add: hs_def rf_def r0_def HttpResponse_zero_def)
  have blne: "bl \<noteq> []"
    by (simp add: bl_def)
  have body: "Join bl CRLF = Data res"
    by (simp add: bl_def Join_Split)
  have "ResponseDecoder L (ResponseEncoder res) = Some (rf\<lparr>Data := Data res\<rparr>)"
    using run blne body l0ne
    by (simp add: ResponseDecoder_def lines t0 r0_def [symmetric])
  also have "rf\<lparr>Data := Data res\<rparr> = res\<lparr>ContentEncoding :=
        (if ContentEncoding res = ''none'' then [] else ContentEncoding res)\<rparr>"
    by (simp add: rf_def r0_def HttpResponse_zero_def)
  finally show ?thesis .
qed

theorem ResponseDecoder_ResponseEncoder_witness:
  "ResponseDecoder sample_stdlib (ResponseEncoder \<lparr>Version = ''HTTP/1.1'', StatusCode = ''200'',
      ContentType = ''application/json'', ContentEncoding = ''gzip'', ContentLength = 7,
      Data = [CHR 0x1F, CHR 0x8B, CR, LF, CR, LF, CHR 0x00]\<rparr>)
   = Some \<lparr>Version = ''HTTP/1.1'', StatusCode = ''200'', ContentType = ''application/json'',
       ContentEncoding = ''gzip'', ContentLength = 7,
       Data = [CHR 0x1F, CHR 0x8B, CR, LF, CR, LF, CHR 0x00]\<rparr>"
  using ResponseDecoder_ResponseEncoder [of "\<lparr>Version = ''HTTP/1.1'', StatusCode = ''200'',
      ContentType = ''application/json'', ContentEncoding = ''gzip'', ContentLength = 7,
      Data = [CHR 0x1F, CHR 0x8B, CR, LF, CR, LF, CHR 0x00]\<rparr>" sample_stdlib]
  by (simp add: Contains_def HasPrefix_def CRLF_def CR_def LF_def)

text \<open>
  The content-encoding \<open>none\<close> is not reproduced: the encoder omits the header for it,
  and the decoder leaves the field empty. The response of the page at \<open>/\<close> is such a
  record.
\<close>

theorem ResponseDecoder_ResponseEncoder_counterexample:
  "ResponseDecoder sample_stdlib (ResponseEncoder \<lparr>Version = ''HTTP/1.1'', StatusCode = ''200'',
      ContentType = ''text/html'', ContentEncoding = ''none'', ContentLength = 98,
      Data = ''<html><body><h1>Halo, dunia! Aku Muhammad Raihan Maulana sedang mengerjakan A03</h1></body></html>''\<rparr>)
   = Some \<lparr>Version = ''HTTP/1.1'', StatusCode = ''200'', ContentType = ''text/html'',
       ContentEncoding = [], ContentLength = 98,
       Data = ''<html><body><h1>Halo, dunia! Aku Muhammad Raihan Maulana sedang mengerjakan A03</h1></body></html>''\<rparr>
   \<and> handleRoot HttpRequest_zero = \<lparr>Version = ''HTTP/1.1'', StatusCode = ''200'',
      ContentType = ''text/html'', ContentEncoding = ''none'', ContentLength = 98,
      Data = ''<html><body><h1>Halo, dunia! Aku Muhammad Raihan Maulana sedang mengerjakan A03</h1></body></html>''\<rparr>"
  by (simp add: ResponseDecoder_def ResponseEncoder_def response_header_def
      HttpResponse_zero_def handleRoot_def STUDENT_NAME_def FormatInt_def nat_digits.simps
      digit_char_def Atoi_def isDigit_def eval_defs)

section \<open>The read loop of the client\<close>

lemma declared_length_Some: "\<exists>n. declared_length L ls = Some n"
proof (induction ls)
  case Nil
  show ?case by simp
next
  case (Cons line rest)
  show ?case
  proof (cases "HasPrefix (ToLower L line) ''content-length:''")
    case True
    then show ?thesis by (simp add: Let_def)
  next
    case False
    with Cons.IH show ?thesis by simp
  qed
qed

lemma message_complete_Some:
  assumes "Contains buf (CRLF @ CRLF)"
  shows "\<exists>b. message_complete L buf = Some b"
proof -
  from assms obtain i where i: "Index buf (CRLF @ CRLF) = Some i"
    unfolding Contains_def by auto
  obtain n where "declared_length L (Split (take i buf) CRLF) = Some n"
    using declared_length_Some by blast
  with i show ?thesis by (simp add: message_complete_def Let_def)
qed

lemma read_loop_step:
  "read_loop L (chunk # rest) acc =
     (if stops_reading L acc chunk then Some (acc @ chunk, rest)
      else read_loop L rest (acc @ chunk))"
proof (cases "Contains (acc @ chunk) (CRLF @ CRLF)")
  case True
  then obtain b where "message_complete L (acc @ chunk) = Some b"
    using message_complete_Some by blast
  with True show ?thesis by (simp add: stops_reading_def response_complete_def Let_def)
next
  case False
  then show ?thesis by (simp add: stops_reading_def response_complete_def Let_def)
qed

lemma read_loop_stop_at:
  assumes "k < length cs"
    and "\<forall>j<k. \<not> stops_reading L (acc @ concat (take j cs)) (cs ! j)"
    and "stops_reading L (acc @ concat (take k cs)) (cs ! k)"
  shows "read_loop L cs acc = Some (acc @ concat (take (Suc k) cs), drop (Suc k) cs)"
  using assms
proof (induction cs arbitrary: acc k)
  case Nil
  then show ?case by simp
next
  case (Cons c rest)
  show ?case
  proof (cases k)
    case 0
    with Cons.prems(3) show ?thesis by (simp add: read_loop_step del: read_loop.simps)
  next
    case (Suc k')
    from Cons.prems(2) Suc have n0: "\<not> stops_reading L acc c"
      by (metis append_Nil2 concat.simps(1) nth_Cons_0 take_0 zero_less_Suc)
    have lt: "k' < length rest"
      using Cons.prems(1) Suc by simp
    have pre: "\<forall>j<k'. \<not> stops_reading L ((acc @ c) @ concat (take j rest)) (rest ! j)"
    proof (intro allI impI)
      fix j assume "j < k'"
      then have "Suc j < k" using Suc by simp
      with Cons.prems(2) have "\<not> stops_reading L (acc @ concat (take (Suc j) (c # rest))) ((c # rest) ! Suc j)"
        by blast
      then show "\<not> stops_reading L ((acc @ c) @ concat (take j rest)) (rest ! j)" by simp
    qed
    have st: "stops_reading L ((acc @ c) @ concat (take k' rest)) (rest ! k')"
      using Cons.prems(3) Suc by simp
    from Cons.IH [OF lt pre st] n0 Suc show ?thesis
      by (simp add: read_loop_step del: read_loop.simps)
  qed
qed

lemma read_loop_exhaust:
  assumes "\<forall>j<length cs. \<not> stops_reading L (acc @ concat (take j cs)) (cs ! j)"
  shows "read_loop L cs acc = Some (acc @ concat cs, [])"
  using assms
proof (induction cs arbitrary: acc)
  case Nil
  then show ?case by simp
next
  case (Cons c rest)
  from Cons.prems have n0: "\<not> stops_reading L acc c"
    by (metis append_Nil2 concat.simps(1) length_greater_0_conv list.distinct(1) nth_Cons_0 take_0)
  have pre: "\<forall>j<length rest. \<not> stops_reading L ((acc @ c) @ concat (take j rest)) (rest ! j)"
  proof (intro allI impI)
    fix j assume "j < length rest"
    then have "Suc j < length (c # rest)" by simp
    with Cons.prems have "\<not> stops_reading L (acc @ concat (take (Suc j) (c # rest))) ((c # rest) ! Suc j)"
      by blast
    then show "\<not> stops_reading L ((acc @ c) @ concat (take j rest)) (rest ! j)" by simp
  qed
  from Cons.IH [OF pre] n0 show ?case
    by (simp add: read_loop_step del: read_loop.simps)
qed

lemma stops_reading_nth:
  "j < length cs \<Longrightarrow>
   stops_reading L (concat (take j cs)) (cs ! j)
     \<longleftrightarrow> response_complete L (concat (take (Suc j) cs)) \<or> length (cs ! j) < BUFFER_SIZE"
  by (simp add: stops_reading_def take_Suc_conv_app_nth)

lemma Contains_prefix: "Contains a sep \<Longrightarrow> Contains (a @ b) sep"
  unfolding Contains_iff by (metis append.assoc)

lemma no_terminator_take:
  assumes "\<not> Contains (concat cs) sep"
  shows "\<not> Contains (concat (take n cs)) sep"
proof
  assume "Contains (concat (take n cs)) sep"
  then have "Contains (concat (take n cs) @ concat (drop n cs)) sep"
    by (rule Contains_prefix)
  then have "Contains (concat cs) sep"
    by (metis append_take_drop_id concat_append)
  with assms show False by contradiction
qed

text \<open>
  The test of the loop against the completion rule of the specification. The loop
  splits the matching line at its first colon with \<open>SplitN\<close>, which gives the text
  after the colon, and it stops looking at the first matching line.
\<close>

lemma Index_char:
  "Index l [c] = (if c \<in> set l then Some (length (takeWhile (\<lambda>x. x \<noteq> c) l)) else None)"
  by (induction l) (auto simp: HasPrefix_def)

lemma take_length_takeWhile: "take (length (takeWhile P l)) l = takeWhile P l"
  by (metis append_eq_conv_conj takeWhile_dropWhile_id)

lemma SplitN_colon:
  "SplitN l '':'' 2 = (if CHR '':'' \<in> set l
     then [takeWhile (\<lambda>c. c \<noteq> CHR '':'') l, after_colon l] else [l])"
  by (simp add: numeral_2_eq_2 Index_char after_colon_def take_length_takeWhile)

lemma after_colon_none:
  assumes "CHR '':'' \<notin> set l"
  shows "after_colon l = []"
proof -
  have "\<forall>c\<in>set l. c \<noteq> CHR '':''"
    using assms by auto
  then have "length (takeWhile (\<lambda>c. c \<noteq> CHR '':'') l) = length l"
    by (simp only: takeWhile_eq_all_conv [THEN iffD2])
  then show ?thesis
    by (simp add: after_colon_def)
qed

lemma find_map_upt:
  "find P (map f xs) = map_option f (find (\<lambda>x. P (f x)) xs)"
  by (induction xs) simp_all

lemma Index_find:
  "sep \<noteq> [] \<Longrightarrow>
   Index s sep = find (\<lambda>i. take (length sep) (drop i s) = sep) [0..<length s]"
proof (induction s)
  case Nil
  then show ?case by simp
next
  case (Cons c cs)
  have "[0..<Suc (length cs)] = 0 # map Suc [0..<length cs]"
    by (metis map_Suc_upt upt_conv_Cons zero_less_Suc)
  with Cons show ?case
    by (simp add: find_map_upt HasPrefix_def del: upt_Suc)
qed

lemma length_terminator: "length (CRLF @ CRLF) = 4"
  by (simp add: CRLF_def)

lemma first_terminator_Index: "first_terminator received = Index received (CRLF @ CRLF)"
proof -
  have "CRLF @ CRLF \<noteq> []"
    by (simp add: CRLF_def)
  from Index_find [OF this, of received, unfolded length_terminator] show ?thesis
    by (simp add: first_terminator_def)
qed

lemma terminator_split:
  assumes "Index s (CRLF @ CRLF) = Some i"
  shows "s = take i s @ CRLF @ CRLF @ drop (i + 4) s" and "i + 4 \<le> length s"
  using Index_Some_split [OF assms] Index_Some_le [OF assms]
  unfolding length_terminator by simp_all

lemma TrimSpace_Nil: "TrimSpace L [] = []"
  by (simp add: TrimSpace_def)

lemma Atoi_Nil: "Atoi [] = None"
  by (simp add: Atoi_def)

lemma declared_length_spec: "declared_length L ls = Some (spec_declared_length L ls)"
proof (induction ls)
  case Nil
  show ?case by (simp add: spec_declared_length_def)
next
  case (Cons l rest)
  show ?case
  proof (cases "HasPrefix (ToLower L l) ''content-length:''")
    case True
    show ?thesis
    proof (cases "CHR '':'' \<in> set l")
      case colon: True
      with True show ?thesis
        by (simp add: spec_declared_length_def SplitN_colon)
    next
      case False
      with True show ?thesis
        by (simp add: spec_declared_length_def SplitN_colon after_colon_none TrimSpace_Nil
            Atoi_Nil)
    qed
  next
    case False
    with Cons.IH show ?thesis
      by (simp add: spec_declared_length_def)
  qed
qed

text \<open>
  \<open>strings.Index\<close> returns the first position of the terminator, the body starts four
  bytes later, and the test \<open>contentLength == 0 || currentBodyLength >= contentLength\<close>
  is the comparison alone, a length being never negative.
\<close>

lemma Index_minimal: "Index (u @ sep @ v) sep = Some i \<Longrightarrow> i \<le> length u"
proof (induction u arbitrary: i)
  case Nil
  have "HasPrefix (sep @ v) sep" by simp
  with Nil show ?case by (cases "sep @ v") (auto split: if_splits)
next
  case (Cons x u)
  then show ?case by (auto split: if_splits)
qed

lemma response_complete_at:
  assumes i: "Index received (CRLF @ CRLF) = Some i"
  shows "response_complete L received
    \<longleftrightarrow> spec_declared_length L (Split (take i received) CRLF)
          \<le> int (length (drop (i + 4) received))"
proof -
  have le: "i + 4 \<le> length received"
    by (rule terminator_split(2) [OF i])
  then have "int (length (drop (i + 4) received)) = int (length received) - int (i + 4)"
    by simp
  moreover have "0 \<le> int (length (drop (i + 4) received))"
    by simp
  ultimately show ?thesis
    using i by (auto simp: response_complete_def message_complete_def Contains_def
        declared_length_spec Let_def)
qed

lemma response_complete_spec: "response_complete L received \<longleftrightarrow> spec_complete L received"
proof (cases "Index received (CRLF @ CRLF)")
  case None
  then show ?thesis
    by (simp add: response_complete_def Contains_def spec_complete_def first_terminator_Index)
next
  case (Some i)
  then show ?thesis
    using response_complete_at [OF Some, of L]
    by (simp add: spec_complete_def first_terminator_Index)
qed

lemma spec_complete_terminator:
  "spec_complete L received \<Longrightarrow> \<exists>u v. received = u @ CRLF @ CRLF @ v"
  using Contains_iff [of received "CRLF @ CRLF"]
  by (simp add: response_complete_spec [symmetric] response_complete_def)

text \<open>
  The same rule without positions: the received bytes split at the terminator that
  leaves the shortest header block, and the rest is at least as long as declared.
\<close>

lemma spec_complete_iff:
  "spec_complete L received \<longleftrightarrow>
     (\<exists>h b. received = h @ CRLF @ CRLF @ b
        \<and> (\<forall>h' b'. received = h' @ CRLF @ CRLF @ b' \<longrightarrow> length h \<le> length h')
        \<and> spec_declared_length L (Split h CRLF) \<le> int (length b))"
proof
  assume sc: "spec_complete L received"
  then obtain i where i: "Index received (CRLF @ CRLF) = Some i"
    by (auto simp: spec_complete_def first_terminator_Index split: option.splits)
  let ?h = "take i received" and ?b = "drop (i + 4) received"
  have dec: "received = ?h @ CRLF @ CRLF @ ?b"
    by (rule terminator_split(1) [OF i])
  have min: "\<forall>h' b'. received = h' @ CRLF @ CRLF @ b' \<longrightarrow> length ?h \<le> length h'"
  proof (intro allI impI)
    fix h' b' assume "received = h' @ CRLF @ CRLF @ b'"
    with i have "Index (h' @ (CRLF @ CRLF) @ b') (CRLF @ CRLF) = Some i" by simp
    then have "i \<le> length h'" by (rule Index_minimal)
    then show "length ?h \<le> length h'" by simp
  qed
  have "spec_declared_length L (Split ?h CRLF) \<le> int (length ?b)"
    using sc i by (simp add: spec_complete_def first_terminator_Index)
  with dec min show "\<exists>h b. received = h @ CRLF @ CRLF @ b
        \<and> (\<forall>h' b'. received = h' @ CRLF @ CRLF @ b' \<longrightarrow> length h \<le> length h')
        \<and> spec_declared_length L (Split h CRLF) \<le> int (length b)"
    by blast
next
  assume "\<exists>h b. received = h @ CRLF @ CRLF @ b
        \<and> (\<forall>h' b'. received = h' @ CRLF @ CRLF @ b' \<longrightarrow> length h \<le> length h')
        \<and> spec_declared_length L (Split h CRLF) \<le> int (length b)"
  then obtain h b where dec: "received = h @ CRLF @ CRLF @ b"
    and min: "\<forall>h' b'. received = h' @ CRLF @ CRLF @ b' \<longrightarrow> length h \<le> length h'"
    and n: "spec_declared_length L (Split h CRLF) \<le> int (length b)"
    by blast
  have "Index (h @ (CRLF @ CRLF) @ b) (CRLF @ CRLF) \<noteq> None"
    by (rule Index_occurrence)
  then obtain i where i: "Index received (CRLF @ CRLF) = Some i"
    using dec by auto
  then have "i \<le> length h"
    using dec Index_minimal [of h "CRLF @ CRLF" b i] by simp
  moreover have "received = take i received @ CRLF @ CRLF @ drop (i + 4) received"
    by (rule terminator_split(1) [OF i])
  with min have "length h \<le> length (take i received)" by blast
  ultimately have eq: "i = length h"
    by simp
  have "take i received = h" "drop (i + 4) received = b"
    unfolding eq by (simp_all add: dec CRLF_def)
  with n i show "spec_complete L received"
    by (simp add: spec_complete_def first_terminator_Index)
qed

text \<open>
  C9, as amended. The read loop of the client over a list of chunks. What is
  accumulated is exactly the concatenation of the chunks consumed, and the chunks after
  them are left unread.
  \<^item> Consumption stops at the first chunk that completes the response (the terminator
    has appeared and the bytes after it reach the declared length, a declaration that
    is absent or does not parse counting as 0) or that is shorter than the buffer,
    whichever comes first: every chunk before it is full and leaves the response
    incomplete.
  \<^item> When every chunk is full and none completes the response, all chunks are consumed.
  \<^item> When the terminator never appears, consumption stops after the first chunk shorter
    than the buffer.

  Completion is \<open>spec_complete\<close>, the rule as the specification words it; that the test
  of the loop computes it is \<open>response_complete_spec\<close>.
\<close>

theorem read_loop_stops:
  "(\<forall>k<length cs.
      (\<forall>j<k. \<not> spec_complete L (concat (take (Suc j) cs)) \<and> BUFFER_SIZE \<le> length (cs ! j))
      \<and> (spec_complete L (concat (take (Suc k) cs)) \<or> length (cs ! k) < BUFFER_SIZE) \<longrightarrow>
      read_loop L cs [] = Some (concat (take (Suc k) cs), drop (Suc k) cs))
   \<and> ((\<forall>j<length cs. \<not> spec_complete L (concat (take (Suc j) cs)) \<and> BUFFER_SIZE \<le> length (cs ! j)) \<longrightarrow>
      read_loop L cs [] = Some (concat cs, []))
   \<and> (\<forall>k<length cs.
      \<not> (\<exists>u v. concat cs = u @ CRLF @ CRLF @ v) \<and> (\<forall>j<k. BUFFER_SIZE \<le> length (cs ! j))
      \<and> length (cs ! k) < BUFFER_SIZE \<longrightarrow>
      read_loop L cs [] = Some (concat (take (Suc k) cs), drop (Suc k) cs))"
proof (intro conjI allI impI)
  fix k
  assume k: "k < length cs"
    and a: "(\<forall>j<k. \<not> spec_complete L (concat (take (Suc j) cs)) \<and> BUFFER_SIZE \<le> length (cs ! j))
      \<and> (spec_complete L (concat (take (Suc k) cs)) \<or> length (cs ! k) < BUFFER_SIZE)"
  have "\<forall>j<k. \<not> stops_reading L ([] @ concat (take j cs)) (cs ! j)"
    using a k by (auto simp: stops_reading_nth response_complete_spec)
  moreover have "stops_reading L ([] @ concat (take k cs)) (cs ! k)"
    using a k by (simp add: stops_reading_nth response_complete_spec)
  ultimately show "read_loop L cs [] = Some (concat (take (Suc k) cs), drop (Suc k) cs)"
    using read_loop_stop_at [OF k, of L "[]"] by simp
next
  assume a: "\<forall>j<length cs. \<not> spec_complete L (concat (take (Suc j) cs)) \<and> BUFFER_SIZE \<le> length (cs ! j)"
  have "\<forall>j<length cs. \<not> stops_reading L ([] @ concat (take j cs)) (cs ! j)"
    using a by (auto simp: stops_reading_nth response_complete_spec)
  then show "read_loop L cs [] = Some (concat cs, [])"
    using read_loop_exhaust [of cs L "[]"] by simp
next
  fix k
  assume k: "k < length cs"
    and a: "\<not> (\<exists>u v. concat cs = u @ CRLF @ CRLF @ v) \<and> (\<forall>j<k. BUFFER_SIZE \<le> length (cs ! j))
      \<and> length (cs ! k) < BUFFER_SIZE"
  from a have "\<not> Contains (concat cs) (CRLF @ CRLF)"
    unfolding Contains_iff by simp
  then have nc: "\<And>n. \<not> response_complete L (concat (take n cs))"
    using no_terminator_take [of cs "CRLF @ CRLF"] by (simp add: response_complete_def)
  have "\<forall>j<k. \<not> stops_reading L ([] @ concat (take j cs)) (cs ! j)"
    using a k nc by (auto simp: stops_reading_nth)
  moreover have "stops_reading L ([] @ concat (take k cs)) (cs ! k)"
    using a k by (simp add: stops_reading_nth)
  ultimately show "read_loop L cs [] = Some (concat (take (Suc k) cs), drop (Suc k) cs)"
    using read_loop_stop_at [OF k, of L "[]"] by simp
qed

lemma HasPrefix_longer:
  "length sep \<le> length xs \<Longrightarrow> HasPrefix (xs @ b) sep = HasPrefix xs sep"
  by (simp add: HasPrefix_def)

lemma Index_prefix: "Index a sep = Some i \<Longrightarrow> Index (a @ b) sep = Some i"
proof (induction a arbitrary: i)
  case Nil
  then show ?case by (cases b) (simp_all add: HasPrefix_def split: if_splits)
next
  case (Cons c a)
  have len: "length sep \<le> length (c # a)"
    using Index_Some_le [OF Cons.prems] by simp
  note hp = HasPrefix_longer [OF len, of b]
  show ?case
  proof (cases "HasPrefix (c # a) sep")
    case True
    with hp have "HasPrefix (c # a @ b) sep" by simp
    with True Cons.prems show ?thesis by simp
  next
    case False
    with Cons.prems obtain i' where i': "Index a sep = Some i'" and i: "i = Suc i'"
      by auto
    from False hp have "\<not> HasPrefix (c # a @ b) sep" by simp
    with Cons.IH [OF i'] i show ?thesis by simp
  qed
qed

lemma no_CR_no_terminator: "CR \<notin> set s \<Longrightarrow> \<not> (\<exists>u v. s = u @ CRLF @ CRLF @ v)"
  by (auto simp: CRLF_def)

text \<open>
  Two runs. In the first the header declares 4055 bytes: the first chunk fills the
  buffer with the 41 bytes of the header block and 2007 bytes of the body, the second
  fills it again and brings the body to 4055 bytes, and the loop stops there on the
  completion test, the third chunk unread. In the second no terminator ever arrives
  and the loop stops at the third chunk, the first one shorter than the buffer.
\<close>

theorem read_loop_stops_witness:
  "read_loop sample_stdlib
     [(''HTTP/1.1 200 OK'' @ CRLF @ ''Content-Length: 4055'' @ CRLF @ CRLF)
        @ replicate 2007 (CHR ''a''),
      replicate 2048 (CHR ''b''), ''zzz''] []
   = Some (((''HTTP/1.1 200 OK'' @ CRLF @ ''Content-Length: 4055'' @ CRLF @ CRLF)
        @ replicate 2007 (CHR ''a'')) @ replicate 2048 (CHR ''b''), [''zzz''])
   \<and> read_loop sample_stdlib
     [replicate 2048 (CHR ''a''), replicate 2048 (CHR ''b''), ''abc'', ''zzz''] []
   = Some (replicate 2048 (CHR ''a'') @ replicate 2048 (CHR ''b'') @ ''abc'', [''zzz''])"
proof -
  let ?h = "''HTTP/1.1 200 OK'' @ CRLF @ ''Content-Length: 4055'' @ CRLF @ CRLF"
  let ?c1 = "?h @ replicate 2007 (CHR ''a'')"
  let ?c2 = "replicate 2048 (CHR ''b'')"
  let ?cs = "[?c1, ?c2, ''zzz'']"
  have ih: "Index ?h (CRLF @ CRLF) = Some 37"
    by (simp add: eval_defs)
  have i1: "Index ?c1 (CRLF @ CRLF) = Some 37"
    by (rule Index_prefix [OF ih])
  have i2: "Index (?c1 @ ?c2) (CRLF @ CRLF) = Some 37"
    by (rule Index_prefix [OF i1])
  have t1: "take 37 ?c1 = ''HTTP/1.1 200 OK'' @ CRLF @ ''Content-Length: 4055''"
    by (simp add: CRLF_def)
  have t2: "take 37 (?c1 @ ?c2) = ''HTTP/1.1 200 OK'' @ CRLF @ ''Content-Length: 4055''"
    by (simp add: CRLF_def)
  have l1: "length (drop (37 + 4) ?c1) = 2007"
    by (simp add: CRLF_def)
  have l2: "length (drop (37 + 4) (?c1 @ ?c2)) = 4055"
    by (simp add: CRLF_def)
  have d: "spec_declared_length sample_stdlib
      (Split (''HTTP/1.1 200 OK'' @ CRLF @ ''Content-Length: 4055'') CRLF) = 4055"
    by (simp add: spec_declared_length_def after_colon_def TrimSpace_def asciiSpace_def
        Atoi_def isDigit_def eval_defs)
  have "response_complete sample_stdlib ?c1 \<longleftrightarrow> (4055::int) \<le> int 2007"
    using response_complete_at [OF i1, of sample_stdlib] unfolding t1 l1 d .
  then have n1: "\<not> spec_complete sample_stdlib ?c1"
    by (simp add: response_complete_spec)
  have "response_complete sample_stdlib (?c1 @ ?c2) \<longleftrightarrow> (4055::int) \<le> int 4055"
    using response_complete_at [OF i2, of sample_stdlib] unfolding t2 l2 d .
  then have c2: "spec_complete sample_stdlib (?c1 @ ?c2)"
    by (simp add: response_complete_spec)
  have full: "BUFFER_SIZE \<le> length ?c1"
    by (simp add: BUFFER_SIZE_def CRLF_def)
  have pre: "\<forall>j<1. \<not> spec_complete sample_stdlib (concat (take (Suc j) ?cs))
      \<and> BUFFER_SIZE \<le> length (?cs ! j)"
    using n1 full by simp
  have fin: "spec_complete sample_stdlib (concat (take (Suc 1) ?cs))"
    using c2 by simp
  have "(1::nat) < length ?cs"
    by simp
  with pre fin read_loop_stops [of ?cs sample_stdlib, THEN conjunct1, rule_format, of 1]
  have completed: "read_loop sample_stdlib ?cs [] = Some (?c1 @ ?c2, [''zzz''])"
    by simp
  let ?ds = "[replicate 2048 (CHR ''a''), replicate 2048 (CHR ''b''), ''abc'', ''zzz'']"
  have "CR \<notin> set (concat ?ds)"
    by (simp add: CR_def)
  then have nt: "\<not> (\<exists>u v. concat ?ds = u @ CRLF @ CRLF @ v)"
    by (rule no_CR_no_terminator)
  have fulls: "\<forall>j<2. BUFFER_SIZE \<le> length (?ds ! j)"
    by (simp add: numeral_2_eq_2 All_less_Suc BUFFER_SIZE_def)
  have short: "length (?ds ! 2) < BUFFER_SIZE"
    by (simp add: BUFFER_SIZE_def)
  have "(2::nat) < length ?ds"
    by simp
  with nt fulls short
    read_loop_stops [of ?ds sample_stdlib, THEN conjunct2, THEN conjunct2, rule_format, of 2]
  have "read_loop sample_stdlib ?ds []
      = Some (replicate 2048 (CHR ''a'') @ replicate 2048 (CHR ''b'') @ ''abc'', [''zzz''])"
    by (simp add: numeral_2_eq_2)
  with completed show ?thesis
    by simp
qed

text \<open>
  A chunk shorter than the buffer stops the loop also when the terminator has been
  found and the body is incomplete. Here the header declares 5 bytes and the first
  chunk brings 4 of them: the test of the loop fails on it, the response is not
  complete, and reading stops all the same. The second chunk is the first one that
  completes the response, and it is never read.
\<close>

theorem read_loop_stops_counterexample:
  "read_loop sample_stdlib
     [''HTTP/1.1 200 OK'' @ CRLF @ ''Content-Length: 5'' @ CRLF @ CRLF @ ''abcd'', ''e''] []
   = Some (''HTTP/1.1 200 OK'' @ CRLF @ ''Content-Length: 5'' @ CRLF @ CRLF @ ''abcd'', [''e''])
   \<and> message_complete sample_stdlib
        (''HTTP/1.1 200 OK'' @ CRLF @ ''Content-Length: 5'' @ CRLF @ CRLF @ ''abcd'') = Some False
   \<and> \<not> spec_complete sample_stdlib
        (''HTTP/1.1 200 OK'' @ CRLF @ ''Content-Length: 5'' @ CRLF @ CRLF @ ''abcd'')
   \<and> spec_complete sample_stdlib
        ((''HTTP/1.1 200 OK'' @ CRLF @ ''Content-Length: 5'' @ CRLF @ CRLF @ ''abcd'') @ ''e'')"
  by (simp add: spec_complete_def first_terminator_Index spec_declared_length_def
      after_colon_def message_complete_def BUFFER_SIZE_def TrimSpace_def
      asciiSpace_def Atoi_def isDigit_def eval_defs)

end
